theory Spec2Isabelle
  imports Main "HOL-Library.AList"
begin

section \<open>Data model of the mirror\<close>

text \<open>
  The sync backend mirrors shared drives, their folders and their managers from the
  provider into Firestore collections. Document ids are opaque strings; a timestamp
  (\<^verbatim>\<open>new Date()\<close>) is a reading of a clock that the caller passes in.
\<close>

type_synonym doc_id = string
type_synonym timestamp = nat

text \<open>
  Exceptions of the source are values. \<open>Batch_committed\<close> is the client library's
  \<^verbatim>\<open>Cannot modify a WriteBatch that has been committed.\<close>;
  \<open>Undefined_value\<close> is the client library's refusal of data in which the named
  field has the value \<^verbatim>\<open>undefined\<close>;
  \<open>Already_running\<close> is the guard of \<^verbatim>\<open>performSync\<close>;
  \<open>Not_initialized\<close> is \<^verbatim>\<open>ensureInitialized\<close>; \<open>Provider\<close> is any
  error raised by a provider call, with its message.
\<close>

datatype error =
  Not_initialized | Batch_committed | Undefined_value string | Already_running | Provider string

text \<open>
  A word between double quotes, for the messages below. The messages are the source's,
  with the accented letters of the Spanish ones written without their accent.
\<close>

definition quoted :: "string \<Rightarrow> string" where
  "quoted s = CHR 0x22 # s @ [CHR 0x22]"

fun message :: "error \<Rightarrow> string" where
  "message Not_initialized = ''Firestore Sync Service no esta inicializado. Llama a initialize() primero.''"
| "message Batch_committed = ''Cannot modify a WriteBatch that has been committed.''"
| "message (Undefined_value field) =
     ''Value for argument '' @ quoted ''data'' @ '' is not a valid Firestore document. Cannot use ''
     @ quoted ''undefined'' @ '' as a Firestore value (found in field '' @ quoted field
     @ ''). If you want to ignore undefined values, enable `ignoreUndefinedProperties`.''"
| "message Already_running = ''Ya hay una sincronizacion en progreso''"
| "message (Provider m) = m"

text \<open>JavaScript truthiness of an optional string: undefined, null and the empty string are falsy.\<close>

fun truthy :: "string option \<Rightarrow> bool" where
  "truthy None = False"
| "truthy (Some s) = (s \<noteq> [])"

text \<open>\<^verbatim>\<open>a || b\<close> on optional strings.\<close>

definition js_or :: "string option \<Rightarrow> string option \<Rightarrow> string option" where
  "js_or a b = (if truthy a then a else b)"

subsection \<open>What the provider returns\<close>

record api_folder =
  f_id :: doc_id
  f_name :: string
  f_parents :: "doc_id list option"
  f_mimeType :: string
  f_createdTime :: string
  f_modifiedTime :: string
  f_full_path :: "string option"

record api_manager =
  m_email :: "string option"
  m_emailAddress :: "string option"
  m_role :: string
  m_type :: string
  m_permissionId :: "string option"
  m_id :: "string option"
  m_displayName :: "string option"
  m_photoLink :: "string option"

record api_drive =
  drv_id :: doc_id
  drv_name :: string
  drv_kind :: string
  drv_colorRgb :: "string option"
  drv_backgroundImageFile :: "string option"
  drv_capabilities :: "(string \<rightharpoonup> bool) option"
  drv_createdTime :: string
  drv_hidden :: "bool option"
  drv_restrictions :: "(string \<rightharpoonup> bool) option"
  drv_folders :: "api_folder list option"
  drv_managers :: "api_manager list option"

subsection \<open>Documents of the mirror\<close>

text \<open>
  A Firestore document is a set of fields. The fields \<^verbatim>\<open>created_by_frontend\<close> and
  \<^verbatim>\<open>created_at\<close> may be absent from a document, which is \<open>None\<close>; in the data of
  a merge write, \<open>None\<close> there means that the write does not mention the field. In the
  other optional fields \<open>None\<close> is the value \<^verbatim>\<open>null\<close>.
  The records are also the data objects that the code hands to \<^verbatim>\<open>set\<close>. Such an
  object can hold a key whose value is \<^verbatim>\<open>undefined\<close>, which a Firestore document
  cannot: the last field of each record lists these keys, in the order of the object (for
  such a key the field of the record reads \<open>None\<close>). The client refuses an object in
  which there are any, so the list of a stored document is empty.
\<close>

record drive_doc =
  dd_id :: doc_id
  dd_name :: string
  dd_kind :: string
  dd_colorRgb :: "string option"
  dd_backgroundImageFile :: "string option"
  dd_capabilities :: "string \<rightharpoonup> bool"
  dd_createdTime :: string
  dd_hidden :: bool
  dd_restrictions :: "string \<rightharpoonup> bool"
  dd_synced_at :: timestamp
  dd_synced_by_backend :: bool
  dd_created_by_frontend :: "bool option"
  dd_created_at :: "timestamp option"
  dd_undefined :: "string list"

record folder_doc =
  fd_id :: doc_id
  fd_name :: string
  fd_driveId :: doc_id
  fd_parent_id :: "doc_id option"
  fd_full_path :: string
  fd_mimeType :: string
  fd_createdTime :: string
  fd_modifiedTime :: string
  fd_synced_at :: timestamp
  fd_synced_by_backend :: bool
  fd_created_by_frontend :: "bool option"
  fd_created_at :: "timestamp option"
  fd_undefined :: "string list"

record manager_doc =
  md_driveId :: doc_id
  md_driveName :: string
  md_email :: "string option"
  md_role :: string
  md_type :: string
  md_permissionId :: "string option"
  md_displayName :: "string option"
  md_photoLink :: "string option"
  md_synced_at :: timestamp
  md_synced_by_backend :: bool
  md_undefined :: "string list"

record status_doc =
  sd_status :: string
  sd_updated_at :: timestamp
  sd_current_sync_id :: "doc_id option"
  sd_last_sync :: "timestamp option"

record run_doc =
  rd_status :: string
  rd_start_time :: timestamp
  rd_end_time :: "timestamp option"
  rd_drives_count :: nat
  rd_folders_count :: nat
  rd_managers_count :: nat
  rd_errors :: "string list"
  rd_current_drive :: "(nat \<times> nat) option"
  rd_current_drive_name :: "string option"

subsection \<open>Writes, batches and the store\<close>

datatype write_op =
    Delete_drive doc_id
  | Set_drive doc_id drive_doc
  | Set_folder doc_id folder_doc
  | Delete_manager doc_id
  | Set_manager doc_id manager_doc

text \<open>
  The state of \<^verbatim>\<open>FirestoreSyncService\<close>: its \<^verbatim>\<open>initialized\<close> flag and the
  collections behind \<^verbatim>\<open>this.db\<close>, each a list of (id, document) in listing order.
  \<open>commits\<close> records every batch that was sent to the database, oldest first.
  \<open>next_auto\<close> counts the automatic ids that \<^verbatim>\<open>collection.doc()\<close> has handed out.
\<close>

record store =
  initialized :: bool
  shared_drives :: "(doc_id \<times> drive_doc) list"
  folder_docs :: "(doc_id \<times> folder_doc) list"
  drive_managers :: "(doc_id \<times> manager_doc) list"
  sync_history :: "(doc_id \<times> run_doc) list"
  sync_status :: "status_doc option"
  commits :: "write_op list list"
  next_auto :: nat

text \<open>
  \<^verbatim>\<open>set(ref, data, { merge: true })\<close>: the fields of the data overwrite, the others
  stay. The field mask of the write holds the leaves of the data, so a map field is merged
  entry by entry; an empty map in the data replaces the stored map.
\<close>

definition merge_map :: "(string \<rightharpoonup> bool) \<Rightarrow> (string \<rightharpoonup> bool) \<Rightarrow> (string \<rightharpoonup> bool)" where
  "merge_map old new = (if new = Map.empty then Map.empty else old ++ new)"

definition merge_drive :: "drive_doc option \<Rightarrow> drive_doc \<Rightarrow> drive_doc" where
  "merge_drive old new =
     (case old of
        None \<Rightarrow> new
      | Some d \<Rightarrow> new\<lparr>
          dd_capabilities := merge_map (dd_capabilities d) (dd_capabilities new),
          dd_restrictions := merge_map (dd_restrictions d) (dd_restrictions new),
          dd_created_by_frontend :=
            (case dd_created_by_frontend new of None \<Rightarrow> dd_created_by_frontend d | Some b \<Rightarrow> Some b),
          dd_created_at :=
            (case dd_created_at new of None \<Rightarrow> dd_created_at d | Some t \<Rightarrow> Some t)\<rparr>)"

definition merge_folder :: "folder_doc option \<Rightarrow> folder_doc \<Rightarrow> folder_doc" where
  "merge_folder old new =
     (case old of
        None \<Rightarrow> new
      | Some d \<Rightarrow> new\<lparr>
          fd_created_by_frontend :=
            (case fd_created_by_frontend new of None \<Rightarrow> fd_created_by_frontend d | Some b \<Rightarrow> Some b),
          fd_created_at :=
            (case fd_created_at new of None \<Rightarrow> fd_created_at d | Some t \<Rightarrow> Some t)\<rparr>)"

fun apply_write :: "write_op \<Rightarrow> store \<Rightarrow> store" where
  "apply_write (Delete_drive i) st = st\<lparr>shared_drives := AList.delete i (shared_drives st)\<rparr>"
| "apply_write (Set_drive i d) st =
     st\<lparr>shared_drives := AList.update i (merge_drive (map_of (shared_drives st) i) d) (shared_drives st)\<rparr>"
| "apply_write (Set_folder i d) st =
     st\<lparr>folder_docs := AList.update i (merge_folder (map_of (folder_docs st) i) d) (folder_docs st)\<rparr>"
| "apply_write (Delete_manager i) st = st\<lparr>drive_managers := AList.delete i (drive_managers st)\<rparr>"
| "apply_write (Set_manager i d) st = st\<lparr>drive_managers := AList.update i d (drive_managers st)\<rparr>"

fun apply_writes :: "write_op list \<Rightarrow> store \<Rightarrow> store" where
  "apply_writes [] st = st"
| "apply_writes (w # ws) st = apply_writes ws (apply_write w st)"

text \<open>
  The \<^verbatim>\<open>WriteBatch\<close> of the Firestore client, as \<^verbatim>\<open>this.db.batch()\<close> returns it:
  \<^verbatim>\<open>set\<close> and \<^verbatim>\<open>delete\<close> queue a write; \<^verbatim>\<open>commit\<close> sends the queued writes
  as one atomic request and marks the batch committed; from then on \<^verbatim>\<open>set\<close> and
  \<^verbatim>\<open>delete\<close> on that batch object throw. \<^verbatim>\<open>set\<close> validates its data first:
  it throws when a field of the data has the value \<^verbatim>\<open>undefined\<close> (the service
  creates its client without \<^verbatim>\<open>ignoreUndefinedProperties\<close>), naming the first such field.
\<close>

fun undefined_keys :: "write_op \<Rightarrow> string list" where
  "undefined_keys (Set_drive i d) = dd_undefined d"
| "undefined_keys (Set_folder i d) = fd_undefined d"
| "undefined_keys (Set_manager i d) = md_undefined d"
| "undefined_keys (Delete_drive i) = []"
| "undefined_keys (Delete_manager i) = []"

record write_batch =
  pending :: "write_op list"
  committed :: bool

definition new_batch :: write_batch where
  "new_batch = \<lparr>pending = [], committed = False\<rparr>"

definition batch_add :: "write_op \<Rightarrow> write_batch \<Rightarrow> error + write_batch" where
  "batch_add w b =
     (case undefined_keys w of
        field # _ \<Rightarrow> Inl (Undefined_value field)
      | [] \<Rightarrow> if committed b then Inl Batch_committed else Inr (b\<lparr>pending := pending b @ [w]\<rparr>))"

text \<open>What \<^verbatim>\<open>set\<close> or \<^verbatim>\<open>delete\<close> throws on a committed batch.\<close>

definition refused :: "write_op \<Rightarrow> error" where
  "refused w = (case undefined_keys w of field # _ \<Rightarrow> Undefined_value field | [] \<Rightarrow> Batch_committed)"

text \<open>
  One commit reaching the database: the writes are applied in order, as one batch. What
  the server answers to a request is not in the source; a commit is taken to succeed.
\<close>

definition commit_writes :: "write_op list \<Rightarrow> store \<Rightarrow> store" where
  "commit_writes ws st = (apply_writes ws st)\<lparr>commits := commits st @ [ws]\<rparr>"

definition batch_commit :: "write_batch \<Rightarrow> store \<Rightarrow> write_batch \<times> store" where
  "batch_commit b st = (b\<lparr>committed := True\<rparr>, commit_writes (pending b) st)"

section \<open>The status document\<close>

text \<open>
  \<^verbatim>\<open>updateSyncStatus(status, syncId = null)\<close> of firestoreService.js builds
  \<^verbatim>\<open>updateData\<close> and merges it into the document \<^verbatim>\<open>current\<close>. In the update,
  \<open>su_current_sync_id = None\<close> means the field is not written, \<open>Some None\<close> that
  \<^verbatim>\<open>null\<close> is written.
\<close>

record status_update =
  su_status :: string
  su_updated_at :: timestamp
  su_current_sync_id :: "doc_id option option"
  su_last_sync :: "timestamp option"

definition updateData :: "string \<Rightarrow> doc_id option \<Rightarrow> timestamp \<Rightarrow> status_update" where
  "updateData status syncId now =
     (let u0 = \<lparr>su_status = status, su_updated_at = now,
                su_current_sync_id = None, su_last_sync = None\<rparr>;
          u1 = (if truthy syncId then u0\<lparr>su_current_sync_id := Some syncId\<rparr> else u0)
      in if status = ''completed'' \<or> status = ''failed''
         then u1\<lparr>su_last_sync := Some now, su_current_sync_id := Some None\<rparr>
         else u1)"

definition merge_status :: "status_doc option \<Rightarrow> status_update \<Rightarrow> status_doc" where
  "merge_status old u =
     \<lparr>sd_status = su_status u,
      sd_updated_at = su_updated_at u,
      sd_current_sync_id =
        (case su_current_sync_id u of
           Some v \<Rightarrow> v
         | None \<Rightarrow> (case old of None \<Rightarrow> None | Some d \<Rightarrow> sd_current_sync_id d)),
      sd_last_sync =
        (case su_last_sync u of
           Some t \<Rightarrow> Some t
         | None \<Rightarrow> (case old of None \<Rightarrow> None | Some d \<Rightarrow> sd_last_sync d))\<rparr>"

text \<open>The \<^verbatim>\<open>catch\<close> of \<^verbatim>\<open>updateSyncStatus\<close> logs and returns, so the function never throws.\<close>

definition updateSyncStatus :: "string \<Rightarrow> doc_id option \<Rightarrow> timestamp \<Rightarrow> store \<Rightarrow> store" where
  "updateSyncStatus status syncId now st =
     (if \<not> initialized st then st
      else st\<lparr>sync_status := Some (merge_status (sync_status st) (updateData status syncId now))\<rparr>)"


section \<open>Drives: \<^verbatim>\<open>syncSharedDrives\<close>\<close>

text \<open>The Firestore limit that the three upsert loops use as \<^verbatim>\<open>batchSize\<close>.\<close>

definition batchSize :: nat where
  "batchSize = 500"

text \<open>
  The body shared by the three \<^verbatim>\<open>for\<close> loops of firestoreService.js (drive deletion,
  drive upsert, folder upsert): build the write for the item (the folder loop reads the
  stored document first), queue it on the batch, count it, and commit when the count
  reaches \<^verbatim>\<open>batchSize\<close>, resetting the count. The batch object is the one created
  before the loop; an exception leaves the loop with what was committed so far.
\<close>

fun batched_loop ::
  "('a \<Rightarrow> store \<Rightarrow> write_op) \<Rightarrow> 'a list \<Rightarrow> store \<times> write_batch \<times> nat
     \<Rightarrow> error option \<times> store \<times> write_batch \<times> nat" where
  "batched_loop mk [] s = (None, s)"
| "batched_loop mk (x # xs) (st, batch, batchCount) =
     (case batch_add (mk x st) batch of
        Inl e \<Rightarrow> (Some e, st, batch, batchCount)
      | Inr batch' \<Rightarrow>
          (if batchCount + 1 \<ge> batchSize
           then (case batch_commit batch' st of
                   (batch'', st') \<Rightarrow> batched_loop mk xs (st', batch'', 0))
           else batched_loop mk xs (st, batch', batchCount + 1)))"

text \<open>\<^verbatim>\<open>if (batchCount > 0) await batch.commit()\<close> after the loops.\<close>

definition final_commit :: "store \<times> write_batch \<times> nat \<Rightarrow> store" where
  "final_commit s = (case s of (st, batch, batchCount) \<Rightarrow>
     if batchCount > 0 then snd (batch_commit batch st) else st)"

text \<open>
  The \<^verbatim>\<open>driveData\<close> object of the upsert loop, for one drive of the listing. For a
  record that the frontend created, \<^verbatim>\<open>created_at\<close> is copied from the stored
  record, and is \<^verbatim>\<open>undefined\<close> when the stored record has none.
\<close>

definition driveData :: "timestamp \<Rightarrow> (doc_id \<times> drive_doc) list \<Rightarrow> api_drive \<Rightarrow> drive_doc" where
  "driveData now existingDrives drive =
     (let d = \<lparr>dd_id = drv_id drive,
               dd_name = drv_name drive,
               dd_kind = drv_kind drive,
               dd_colorRgb = js_or (drv_colorRgb drive) None,
               dd_backgroundImageFile = js_or (drv_backgroundImageFile drive) None,
               dd_capabilities = (case drv_capabilities drive of None \<Rightarrow> Map.empty | Some c \<Rightarrow> c),
               dd_createdTime = drv_createdTime drive,
               dd_hidden = (case drv_hidden drive of None \<Rightarrow> False | Some h \<Rightarrow> h),
               dd_restrictions = (case drv_restrictions drive of None \<Rightarrow> Map.empty | Some r \<Rightarrow> r),
               dd_synced_at = now,
               dd_synced_by_backend = True,
               dd_created_by_frontend = None,
               dd_created_at = None,
               dd_undefined = []\<rparr>
      in case map_of existingDrives (drv_id drive) of
           None \<Rightarrow> d
         | Some existingData \<Rightarrow>
             if dd_created_by_frontend existingData = Some True
             then d\<lparr>dd_created_by_frontend := Some True,
                    dd_created_at := dd_created_at existingData,
                    dd_undefined := (if dd_created_at existingData = None then [''created_at''] else [])\<rparr>
             else d)"

record sync_result =
  processed :: nat
  deleted :: nat
  total :: nat

text \<open>Step 3 of \<^verbatim>\<open>syncSharedDrives\<close>: the ids in the mirror that the listing does not have.\<close>

definition drivesToDelete :: "(doc_id \<times> drive_doc) list \<Rightarrow> api_drive list \<Rightarrow> doc_id list" where
  "drivesToDelete existingDrives drivesFromAPI =
     filter (\<lambda>driveId. driveId \<notin> set (map drv_id drivesFromAPI)) (map fst existingDrives)"

definition syncSharedDrives ::
  "timestamp \<Rightarrow> api_drive list \<Rightarrow> store \<Rightarrow> (error + sync_result) \<times> store" where
  "syncSharedDrives now drivesFromAPI st =
     (if \<not> initialized st then (Inl Not_initialized, st)
      else
        let existingDrives = shared_drives st;
            toDelete = drivesToDelete existingDrives drivesFromAPI
        in case batched_loop (\<lambda>driveId _. Delete_drive driveId) toDelete (st, new_batch, 0) of
             (Some e, st1, _) \<Rightarrow> (Inl e, st1)
           | (None, s1) \<Rightarrow>
               (case batched_loop (\<lambda>drive _. Set_drive (drv_id drive) (driveData now existingDrives drive))
                       drivesFromAPI s1 of
                  (Some e, st2, _) \<Rightarrow> (Inl e, st2)
                | (None, s2) \<Rightarrow>
                    (Inr \<lparr>processed = length drivesFromAPI,
                          deleted = length toDelete,
                          total = length drivesFromAPI\<rparr>,
                     final_commit s2)))"

section \<open>Folders: \<^verbatim>\<open>syncFoldersForDrive\<close>\<close>

text \<open>
  The \<^verbatim>\<open>folderData\<close> object. \<^verbatim>\<open>parent_id\<close> is
  \<^verbatim>\<open>folder.parents && folder.parents[0] !== driveId ? folder.parents[0] : null\<close>: for an
  empty array of parents that is \<^verbatim>\<open>undefined\<close>.
\<close>

definition folderData ::
  "timestamp \<Rightarrow> doc_id \<Rightarrow> folder_doc option \<Rightarrow> api_folder \<Rightarrow> folder_doc" where
  "folderData now driveId existingDoc folder =
     (let d = \<lparr>fd_id = f_id folder,
               fd_name = f_name folder,
               fd_driveId = driveId,
               fd_parent_id =
                 (case f_parents folder of
                    None \<Rightarrow> None
                  | Some [] \<Rightarrow> None
                  | Some (p # _) \<Rightarrow> if p \<noteq> driveId then Some p else None),
               fd_full_path = (if truthy (f_full_path folder) then the (f_full_path folder) else ''/''),
               fd_mimeType = f_mimeType folder,
               fd_createdTime = f_createdTime folder,
               fd_modifiedTime = f_modifiedTime folder,
               fd_synced_at = now,
               fd_synced_by_backend = True,
               fd_created_by_frontend = None,
               fd_created_at = None,
               fd_undefined = (if f_parents folder = Some [] then [''parent_id''] else [])\<rparr>
      in case existingDoc of
           None \<Rightarrow> d
         | Some existingData \<Rightarrow>
             if fd_created_by_frontend existingData = Some True
             then d\<lparr>fd_created_by_frontend := Some True,
                    fd_created_at := fd_created_at existingData,
                    fd_undefined := fd_undefined d
                      @ (if fd_created_at existingData = None then [''created_at''] else [])\<rparr>
             else d)"

definition syncFoldersForDrive ::
  "timestamp \<Rightarrow> doc_id \<Rightarrow> api_folder list \<Rightarrow> store \<Rightarrow> (error + nat) \<times> store" where
  "syncFoldersForDrive now driveId foldersFromAPI st =
     (if \<not> initialized st then (Inl Not_initialized, st)
      else
        case batched_loop
               (\<lambda>folder cur. Set_folder (f_id folder)
                                (folderData now driveId (map_of (folder_docs cur) (f_id folder)) folder))
               foldersFromAPI (st, new_batch, 0) of
          (Some e, st1, _) \<Rightarrow> (Inl e, st1)
        | (None, s1) \<Rightarrow> (Inr (length foldersFromAPI), final_commit s1))"

section \<open>Managers: \<^verbatim>\<open>syncManagersForDrive\<close>\<close>

text \<open>
  The query \<^verbatim>\<open>where('driveId', '==', driveId).where('synced_by_backend', '==', true)\<close>.
\<close>

definition existingManagers :: "doc_id \<Rightarrow> store \<Rightarrow> (doc_id \<times> manager_doc) list" where
  "existingManagers driveId st =
     filter (\<lambda>(i, m). md_driveId m = driveId \<and> md_synced_by_backend m) (drive_managers st)"

text \<open>
  The object of a manager record. \<^verbatim>\<open>manager.email || manager.emailAddress\<close> and
  \<^verbatim>\<open>manager.permissionId || manager.id\<close> are \<^verbatim>\<open>undefined\<close> when the provider
  gave neither of the two.
\<close>

definition managerData :: "timestamp \<Rightarrow> doc_id \<Rightarrow> string \<Rightarrow> api_manager \<Rightarrow> manager_doc" where
  "managerData now driveId driveName manager =
     \<lparr>md_driveId = driveId,
      md_driveName = driveName,
      md_email = js_or (m_email manager) (m_emailAddress manager),
      md_role = m_role manager,
      md_type = m_type manager,
      md_permissionId = js_or (m_permissionId manager) (m_id manager),
      md_displayName = js_or (m_displayName manager) None,
      md_photoLink = js_or (m_photoLink manager) None,
      md_synced_at = now,
      md_synced_by_backend = True,
      md_undefined =
        (if js_or (m_email manager) (m_emailAddress manager) = None then [''email''] else [])
        @ (if js_or (m_permissionId manager) (m_id manager) = None then [''permissionId''] else [])\<rparr>"

text \<open>
  \<^verbatim>\<open>collection.doc()\<close> makes a new document reference with an automatic id; \<open>gen\<close>
  is the generator of these ids, and the store counts how many it has handed out.
  The writes (all deletions, then all insertions) go to one batch, committed once. When
  a \<^verbatim>\<open>set\<close> throws, the references up to that manager have been made.
\<close>

fun batch_add_all :: "write_op list \<Rightarrow> write_batch \<Rightarrow> error + write_batch" where
  "batch_add_all [] b = Inr b"
| "batch_add_all (w # ws) b =
     (case batch_add w b of Inl e \<Rightarrow> Inl e | Inr b' \<Rightarrow> batch_add_all ws b')"

definition syncManagersForDrive ::
  "(nat \<Rightarrow> doc_id) \<Rightarrow> timestamp \<Rightarrow> doc_id \<Rightarrow> string \<Rightarrow> api_manager list \<Rightarrow> store
     \<Rightarrow> (error + nat) \<times> store" where
  "syncManagersForDrive gen now driveId driveName managersFromAPI st =
     (if \<not> initialized st then (Inl Not_initialized, st)
      else
        let existingSnapshot = existingManagers driveId st;
            deletes = map (\<lambda>(i, _). Delete_manager i) existingSnapshot;
            n = next_auto st;
            refs = map gen [n ..< n + length managersFromAPI];
            sets = map (\<lambda>(r, manager). Set_manager r (managerData now driveId driveName manager))
                       (zip refs managersFromAPI);
            st' = st\<lparr>next_auto := n + length managersFromAPI\<rparr>
        in case batch_add_all (deletes @ sets) new_batch of
             Inl e \<Rightarrow>
               (Inl e, st\<lparr>next_auto := n + length (takeWhile (\<lambda>w. undefined_keys w = []) sets) + 1\<rparr>)
           | Inr batch \<Rightarrow> (Inr (length managersFromAPI), snd (batch_commit batch st')))"

section \<open>The run bookkeeping of firestoreService.js\<close>

text \<open>
  \<^verbatim>\<open>recordSyncStart\<close> rethrows what it catches; \<^verbatim>\<open>updateSyncProgress\<close> and
  \<^verbatim>\<open>completeSyncRecord\<close> log and return. \<^verbatim>\<open>update\<close> of a document that does
  not exist fails, which the \<^verbatim>\<open>catch\<close> swallows.
\<close>

definition recordSyncStart :: "doc_id \<Rightarrow> timestamp \<Rightarrow> store \<Rightarrow> error option \<times> store" where
  "recordSyncStart syncId now st =
     (if \<not> initialized st then (Some Not_initialized, st)
      else (None, st\<lparr>sync_history := AList.update syncId
              \<lparr>rd_status = ''running'', rd_start_time = now, rd_end_time = None,
               rd_drives_count = 0, rd_folders_count = 0, rd_managers_count = 0,
               rd_errors = [], rd_current_drive = None, rd_current_drive_name = None\<rparr>
              (sync_history st)\<rparr>))"

definition updateSyncProgress :: "doc_id \<Rightarrow> (run_doc \<Rightarrow> run_doc) \<Rightarrow> store \<Rightarrow> store" where
  "updateSyncProgress syncId progress st =
     (if \<not> initialized st then st
      else case map_of (sync_history st) syncId of
             None \<Rightarrow> st
           | Some d \<Rightarrow> st\<lparr>sync_history := AList.update syncId (progress d) (sync_history st)\<rparr>)"

section \<open>The provider side: \<^verbatim>\<open>performFullSync\<close> of the drive service\<close>

text \<open>
  For the run as a whole, the outcome of each call of the drive service is given by a
  field named after the call: \<open>Inl\<close> is the exception the call throws.
  \<^verbatim>\<open>testConnection\<close> never throws; it returns the user or the error message.
\<close>

record provider =
  drive_initialized :: bool
  r_testConnection :: "string + string"
  r_getAllSharedDrives :: "error + api_drive list"
  r_getDriveInfo :: "doc_id \<Rightarrow> error + api_drive"
  r_getFoldersFromDrive :: "doc_id \<Rightarrow> string \<Rightarrow> error + api_folder list"
  r_getManagersFromDrive :: "doc_id \<Rightarrow> string \<Rightarrow> error + api_manager list"

record fetch_stats =
  fs_drives_count :: nat
  fs_folders_count :: nat
  fs_managers_count :: nat
  fs_errors :: "string list"

text \<open>
  \<^verbatim>\<open>Promise.all([getFoldersFromDrive, getManagersFromDrive])\<close>: both are started, and
  the first rejection is the exception; when both reject the folder one is taken here.
\<close>

definition fetch_drive ::
  "provider \<Rightarrow> doc_id \<Rightarrow> string \<Rightarrow> error + (api_folder list \<times> api_manager list)" where
  "fetch_drive p driveId driveName =
     (case r_getFoldersFromDrive p driveId driveName of
        Inl e \<Rightarrow> Inl e
      | Inr folders \<Rightarrow>
          (case r_getManagersFromDrive p driveId driveName of
             Inl e \<Rightarrow> Inl e
           | Inr managers \<Rightarrow> Inr (folders, managers)))"

text \<open>Step 2 of \<^verbatim>\<open>performFullSync\<close>: the loop over the drives, with its \<^verbatim>\<open>try/catch\<close>.\<close>

fun fetch_loop :: "provider \<Rightarrow> api_drive list \<Rightarrow> fetch_stats \<Rightarrow> api_drive list \<times> fetch_stats" where
  "fetch_loop p [] syncStats = ([], syncStats)"
| "fetch_loop p (drive # rest) syncStats =
     (case fetch_drive p (drv_id drive) (drv_name drive) of
        Inr (folders, managers) \<Rightarrow>
          (case fetch_loop p rest
                  (syncStats\<lparr>fs_folders_count := fs_folders_count syncStats + length folders,
                             fs_managers_count := fs_managers_count syncStats + length managers\<rparr>) of
             (ds, s) \<Rightarrow> (drive\<lparr>drv_folders := Some folders, drv_managers := Some managers\<rparr> # ds, s))
      | Inl error \<Rightarrow>
          (case fetch_loop p rest
                  (syncStats\<lparr>fs_errors := fs_errors syncStats @
                     [''Error procesando unidad '' @ drv_name drive @ '': '' @ message error]\<rparr>) of
             (ds, s) \<Rightarrow> (drive\<lparr>drv_folders := Some [], drv_managers := Some []\<rparr> # ds, s)))"

definition performFullSync :: "provider \<Rightarrow> error + (api_drive list \<times> fetch_stats)" where
  "performFullSync p =
     (if \<not> drive_initialized p
      then Inl (Provider ''Google Drive Sync Service no esta inicializado. Llama a initialize() primero.'')
      else case r_getAllSharedDrives p of
             Inl e \<Rightarrow> Inl e
           | Inr drives \<Rightarrow>
               Inr (fetch_loop p drives
                      \<lparr>fs_drives_count = length drives, fs_folders_count = 0,
                       fs_managers_count = 0, fs_errors = []\<rparr>))"


section \<open>The sync service (syncService.js)\<close>

text \<open>
  \<^verbatim>\<open>this.syncStats\<close>, without \<^verbatim>\<open>duration_minutes\<close> (a rounded floating-point
  quotient of \<^verbatim>\<open>duration_ms\<close>).
\<close>

record sync_stats =
  drives_count :: nat
  folders_count :: nat
  managers_count :: nat
  errors :: "string list"
  start_time :: "timestamp option"
  end_time :: "timestamp option"
  duration_ms :: int

record sync_service =
  isRunning :: bool
  currentSyncId :: "doc_id option"
  syncStats :: sync_stats

definition resetStats :: sync_stats where
  "resetStats = \<lparr>drives_count = 0, folders_count = 0, managers_count = 0, errors = [],
                  start_time = None, end_time = None, duration_ms = 0\<rparr>"

definition completeSyncRecord :: "doc_id \<Rightarrow> sync_stats \<Rightarrow> string \<Rightarrow> timestamp \<Rightarrow> store \<Rightarrow> store" where
  "completeSyncRecord syncId stats status now st =
     (if \<not> initialized st then st
      else case map_of (sync_history st) syncId of
             None \<Rightarrow> st
           | Some d \<Rightarrow> st\<lparr>sync_history := AList.update syncId
                (d\<lparr>rd_status := status, rd_end_time := Some now,
                   rd_drives_count := drives_count stats,
                   rd_folders_count := folders_count stats,
                   rd_managers_count := managers_count stats,
                   rd_errors := errors stats\<rparr>) (sync_history st)\<rparr>)"

text \<open>
  The loop of \<^verbatim>\<open>syncToFirestore\<close> over the drives. The two writers of
  \<^verbatim>\<open>Promise.all\<close> work on different collections, so they are run one after the other
  here; the manager writer runs to its end also when the folder writer throws. The
  exception of the pair is caught and pushed on \<^verbatim>\<open>this.syncStats.errors\<close>.
\<close>

fun sync_drive_loop ::
  "(nat \<Rightarrow> doc_id) \<Rightarrow> timestamp \<Rightarrow> doc_id \<Rightarrow> nat \<Rightarrow> nat \<Rightarrow> api_drive list
     \<Rightarrow> string list \<times> store \<Rightarrow> string list \<times> store" where
  "sync_drive_loop gen now syncId n i [] s = s"
| "sync_drive_loop gen now syncId n i (drive # rest) (errs, st) =
     (case syncFoldersForDrive now (drv_id drive)
             (case drv_folders drive of None \<Rightarrow> [] | Some fs \<Rightarrow> fs) st of
        (rf, st1) \<Rightarrow>
          (case syncManagersForDrive gen now (drv_id drive) (drv_name drive)
                  (case drv_managers drive of None \<Rightarrow> [] | Some ms \<Rightarrow> ms) st1 of
             (rm, st2) \<Rightarrow>
               (case (rf, rm) of
                  (Inr _, Inr _) \<Rightarrow>
                    sync_drive_loop gen now syncId n (i + 1) rest
                      (errs,
                       updateSyncProgress syncId
                         (\<lambda>d. d\<lparr>rd_current_drive := Some (i + 1, n),
                                 rd_current_drive_name := Some (drv_name drive)\<rparr>) st2)
                | (Inl error, _) \<Rightarrow>
                    sync_drive_loop gen now syncId n (i + 1) rest
                      (errs @ [''Error sincronizando unidad '' @ drv_name drive @ '' a Firestore: ''
                                 @ message error], st2)
                | (Inr _, Inl error) \<Rightarrow>
                    sync_drive_loop gen now syncId n (i + 1) rest
                      (errs @ [''Error sincronizando unidad '' @ drv_name drive @ '' a Firestore: ''
                                 @ message error], st2))))"

definition syncToFirestore ::
  "(nat \<Rightarrow> doc_id) \<Rightarrow> timestamp \<Rightarrow> doc_id \<Rightarrow> api_drive list \<Rightarrow> sync_service \<times> store
     \<Rightarrow> error option \<times> sync_service \<times> store" where
  "syncToFirestore gen now syncId drives s = (case s of (svc, st) \<Rightarrow>
     (case syncSharedDrives now drives st of
        (Inl e, st1) \<Rightarrow> (Some e, svc, st1)
      | (Inr syncResult, st1) \<Rightarrow>
          (case sync_drive_loop gen now syncId (length drives) 0 drives (errors (syncStats svc), st1) of
             (errs, st2) \<Rightarrow> (None, svc\<lparr>syncStats := (syncStats svc)\<lparr>errors := errs\<rparr>\<rparr>, st2))))"

text \<open>The result object that \<^verbatim>\<open>performSync\<close> and \<^verbatim>\<open>performIncrementalSync\<close> return.\<close>

record run_result =
  rr_success :: bool
  rr_sync_id :: "doc_id option"
  rr_stats :: sync_stats
  rr_error :: "string option"
  rr_status :: string

text \<open>The lines between the guard and the \<^verbatim>\<open>try\<close>, and the \<^verbatim>\<open>finally\<close>.\<close>

definition start_run :: "doc_id \<Rightarrow> timestamp \<Rightarrow> sync_service \<Rightarrow> sync_service" where
  "start_run uuid now svc =
     svc\<lparr>isRunning := True, currentSyncId := Some uuid,
         syncStats := resetStats\<lparr>start_time := Some now\<rparr>\<rparr>"

definition end_run :: "sync_service \<Rightarrow> sync_service" where
  "end_run svc = svc\<lparr>isRunning := False, currentSyncId := None\<rparr>"

text \<open>The end of the \<^verbatim>\<open>try\<close> block (duration, status, records) and the \<^verbatim>\<open>catch\<close> block.\<close>

definition complete_run ::
  "doc_id \<Rightarrow> timestamp \<Rightarrow> timestamp \<Rightarrow> sync_service \<times> store
     \<Rightarrow> run_result \<times> sync_service \<times> store" where
  "complete_run uuid now fin s = (case s of (svc, st) \<Rightarrow>
     (let stats = (syncStats svc)\<lparr>end_time := Some fin, duration_ms := int fin - int now\<rparr>;
          status = (if length (errors stats) > 0 then ''completed_with_errors'' else ''completed'');
          st1 = completeSyncRecord uuid stats status fin st;
          st2 = updateSyncStatus status None fin st1
      in (\<lparr>rr_success = True, rr_sync_id = Some uuid, rr_stats = stats, rr_error = None, rr_status = status\<rparr>,
          svc\<lparr>syncStats := stats\<rparr>, st2)))"

definition fail_run ::
  "doc_id \<Rightarrow> timestamp \<Rightarrow> timestamp \<Rightarrow> error \<Rightarrow> sync_service \<times> store
     \<Rightarrow> run_result \<times> sync_service \<times> store" where
  "fail_run uuid now fin error s = (case s of (svc, st) \<Rightarrow>
     (let stats = (syncStats svc)\<lparr>end_time := Some fin, duration_ms := int fin - int now,
                                  errors := errors (syncStats svc) @ [''Error critico: '' @ message error]\<rparr>;
          st1 = completeSyncRecord uuid stats ''failed'' fin st;
          st2 = updateSyncStatus ''failed'' None fin st1
      in (\<lparr>rr_success = False, rr_sync_id = Some uuid, rr_stats = stats,
           rr_error = Some (message error), rr_status = ''failed''\<rparr>,
          svc\<lparr>syncStats := stats\<rparr>, st2)))"

text \<open>The \<^verbatim>\<open>try\<close> block of \<^verbatim>\<open>performSync\<close> up to and including \<^verbatim>\<open>syncToFirestore\<close>.\<close>

definition full_sync_body ::
  "(nat \<Rightarrow> doc_id) \<Rightarrow> provider \<Rightarrow> doc_id \<Rightarrow> timestamp \<Rightarrow> sync_service \<times> store
     \<Rightarrow> error option \<times> sync_service \<times> store" where
  "full_sync_body gen p uuid now s = (case s of (svc, st) \<Rightarrow>
     (case recordSyncStart uuid now st of
        (Some e, st1) \<Rightarrow> (Some e, svc, st1)
      | (None, st1) \<Rightarrow>
          (let st2 = updateSyncStatus ''running'' (Some uuid) now st1
           in case r_testConnection p of
                Inl err \<Rightarrow> (Some (Provider (''Error de conectividad con Google Drive: '' @ err)), svc, st2)
              | Inr user \<Rightarrow>
                  (case performFullSync p of
                     Inl e \<Rightarrow> (Some e, svc, st2)
                   | Inr (drives, driveStats) \<Rightarrow>
                       (let svc1 = svc\<lparr>syncStats := (syncStats svc)
                                     \<lparr>drives_count := fs_drives_count driveStats,
                                      folders_count := fs_folders_count driveStats,
                                      managers_count := fs_managers_count driveStats,
                                      errors := fs_errors driveStats\<rparr>\<rparr>;
                            st3 = updateSyncProgress uuid
                                    (\<lambda>d. d\<lparr>rd_drives_count := fs_drives_count driveStats,
                                            rd_status := ''syncing_to_firestore''\<rparr>) st2
                        in syncToFirestore gen now uuid drives (svc1, st3))))))"

text \<open>
  \<^verbatim>\<open>performSync\<close>: \<open>uuid\<close> is what \<^verbatim>\<open>uuidv4()\<close> returns, \<open>now\<close> the clock during
  the run and \<open>fin\<close> the clock at its end. \<open>Inl\<close> is the exception of the guard; a run
  that started always returns a result object.
\<close>

definition performSync ::
  "(nat \<Rightarrow> doc_id) \<Rightarrow> provider \<Rightarrow> doc_id \<Rightarrow> timestamp \<Rightarrow> timestamp \<Rightarrow> sync_service \<times> store
     \<Rightarrow> (error + run_result) \<times> sync_service \<times> store" where
  "performSync gen p uuid now fin s = (case s of (svc, st) \<Rightarrow>
     if isRunning svc then (Inl Already_running, svc, st)
     else
       (case full_sync_body gen p uuid now (start_run uuid now svc, st) of
          (None, s1) \<Rightarrow>
            (case complete_run uuid now fin s1 of (r, svc2, st2) \<Rightarrow> (Inr r, end_run svc2, st2))
        | (Some error, s1) \<Rightarrow>
            (case fail_run uuid now fin error s1 of (r, svc2, st2) \<Rightarrow> (Inr r, end_run svc2, st2))))"

text \<open>The loop of \<^verbatim>\<open>performIncrementalSync\<close> over the requested drive ids.\<close>

fun incremental_fetch_loop ::
  "provider \<Rightarrow> doc_id list \<Rightarrow> api_drive list \<times> sync_stats \<Rightarrow> api_drive list \<times> sync_stats" where
  "incremental_fetch_loop p [] s = s"
| "incremental_fetch_loop p (driveId # rest) (drivesToSync, stats) =
     (case (case r_getDriveInfo p driveId of
              Inl e \<Rightarrow> Inl e
            | Inr driveInfo \<Rightarrow>
                (case fetch_drive p driveId (drv_name driveInfo) of
                   Inl e \<Rightarrow> Inl e
                 | Inr (fs, ms) \<Rightarrow> Inr (driveInfo, fs, ms))) of
        Inr (driveInfo, fs, ms) \<Rightarrow>
          incremental_fetch_loop p rest
            (drivesToSync @ [driveInfo\<lparr>drv_folders := Some fs, drv_managers := Some ms\<rparr>],
             stats\<lparr>drives_count := drives_count stats + 1,
                   folders_count := folders_count stats + length fs,
                   managers_count := managers_count stats + length ms\<rparr>)
      | Inl error \<Rightarrow>
          incremental_fetch_loop p rest
            (drivesToSync,
             stats\<lparr>errors := errors stats @
                [''Error obteniendo datos de unidad '' @ driveId @ '': '' @ message error]\<rparr>))"

definition incremental_sync_body ::
  "(nat \<Rightarrow> doc_id) \<Rightarrow> provider \<Rightarrow> doc_id list \<Rightarrow> doc_id \<Rightarrow> timestamp \<Rightarrow> sync_service \<times> store
     \<Rightarrow> error option \<times> sync_service \<times> store" where
  "incremental_sync_body gen p driveIds uuid now s = (case s of (svc, st) \<Rightarrow>
     (case recordSyncStart uuid now st of
        (Some e, st1) \<Rightarrow> (Some e, svc, st1)
      | (None, st1) \<Rightarrow>
          (let st2 = updateSyncStatus ''running'' (Some uuid) now st1
           in if length driveIds > 0
              then (case incremental_fetch_loop p driveIds ([], syncStats svc) of
                      (drivesToSync, stats') \<Rightarrow>
                        syncToFirestore gen now uuid drivesToSync (svc\<lparr>syncStats := stats'\<rparr>, st2))
              else (case performFullSync p of
                      Inl e \<Rightarrow> (Some e, svc, st2)
                    | Inr (drives, driveStats) \<Rightarrow>
                        syncToFirestore gen now uuid drives
                          (svc\<lparr>syncStats := (syncStats svc)
                                 \<lparr>drives_count := fs_drives_count driveStats,
                                  folders_count := fs_folders_count driveStats,
                                  managers_count := fs_managers_count driveStats,
                                  errors := fs_errors driveStats\<rparr>\<rparr>, st2)))))"

definition performIncrementalSync ::
  "(nat \<Rightarrow> doc_id) \<Rightarrow> provider \<Rightarrow> doc_id list \<Rightarrow> doc_id \<Rightarrow> timestamp \<Rightarrow> timestamp
     \<Rightarrow> sync_service \<times> store \<Rightarrow> (error + run_result) \<times> sync_service \<times> store" where
  "performIncrementalSync gen p driveIds uuid now fin s = (case s of (svc, st) \<Rightarrow>
     if isRunning svc then (Inl Already_running, svc, st)
     else
       (case incremental_sync_body gen p driveIds uuid now (start_run uuid now svc, st) of
          (None, s1) \<Rightarrow>
            (case complete_run uuid now fin s1 of (r, svc2, st2) \<Rightarrow> (Inr r, end_run svc2, st2))
        | (Some error, s1) \<Rightarrow>
            (case fail_run uuid now fin error s1 of (r, svc2, st2) \<Rightarrow> (Inr r, end_run svc2, st2))))"


section \<open>Walking the folders of a drive (the drive service)\<close>

text \<open>
  \<open>listing\<close> is what \<^verbatim>\<open>files.list\<close> returns, all pages together, for the query
  \<^verbatim>\<open>'<parent>' in parents and mimeType = folder and trashed = false\<close>, or the error it
  raises. \<^verbatim>\<open>getDirectSubfolders\<close> catches the error and returns the empty list.
\<close>

definition getDirectSubfolders :: "(doc_id \<Rightarrow> error + api_folder list) \<Rightarrow> doc_id \<Rightarrow> api_folder list" where
  "getDirectSubfolders listing parentFolderId =
     (case listing parentFolderId of Inl e \<Rightarrow> [] | Inr subfolders \<Rightarrow> subfolders)"

text \<open>
  \<^verbatim>\<open>getSubfoldersRecursively\<close>: for every parent folder, its direct subfolders and,
  when there are any, their subfolders in turn. \<open>None\<close> is a call that never returns.
\<close>

partial_function (option) getSubfoldersRecursively ::
  "(doc_id \<Rightarrow> error + api_folder list) \<Rightarrow> api_folder list \<Rightarrow> api_folder list option" where
  "getSubfoldersRecursively listing parentFolders =
     (case parentFolders of
        [] \<Rightarrow> Some []
      | folder # rest \<Rightarrow>
          (let subfolders = getDirectSubfolders listing (f_id folder)
           in Option.bind
                (if length subfolders > 0 then getSubfoldersRecursively listing subfolders else Some [])
                (\<lambda>deeperSubfolders.
                   Option.bind (getSubfoldersRecursively listing rest)
                     (\<lambda>others. Some (subfolders @ deeperSubfolders @ others)))))"

text \<open>\<^verbatim>\<open>folder.parents && folder.parents[0]\<close>.\<close>

definition first_parent :: "api_folder \<Rightarrow> doc_id option" where
  "first_parent folder =
     (case f_parents folder of None \<Rightarrow> None | Some [] \<Rightarrow> None | Some (p # _) \<Rightarrow> Some p)"

text \<open>
  The inner function \<^verbatim>\<open>calculatePath\<close> of \<^verbatim>\<open>calculateFolderPaths\<close>. The
  \<^verbatim>\<open>folderMap\<close> keeps insertion order; the folder objects in it are updated in place,
  so the map is passed through.
\<close>

function calculatePath ::
  "doc_id \<Rightarrow> doc_id \<Rightarrow> doc_id list \<Rightarrow> (doc_id \<times> api_folder) list
     \<Rightarrow> string \<times> (doc_id \<times> api_folder) list" where
  "calculatePath driveId folderId visited folderMap =
     (if folderId \<in> set visited then (''/'', folderMap)
      else case map_of folderMap folderId of
             None \<Rightarrow> (''/'', folderMap)
           | Some folder \<Rightarrow>
               (case f_full_path folder of
                  Some path \<Rightarrow> (path, folderMap)
                | None \<Rightarrow>
                    (let parentId = first_parent folder
                     in if \<not> truthy parentId \<or> parentId = Some driveId
                        then (''/'' @ f_name folder,
                              AList.update folderId (folder\<lparr>f_full_path := Some (''/'' @ f_name folder)\<rparr>)
                                folderMap)
                        else (case calculatePath driveId (the parentId) (folderId # visited) folderMap of
                                (parentPath, folderMap') \<Rightarrow>
                                  (parentPath @ ''/'' @ f_name folder,
                                   AList.update folderId
                                     (folder\<lparr>f_full_path := Some (parentPath @ ''/'' @ f_name folder)\<rparr>)
                                     folderMap')))))"
  by pat_completeness auto
termination
proof (relation "measure (\<lambda>(driveId, folderId, visited, folderMap).
                    card (fst ` set folderMap - set visited))")
  show "wf (measure (\<lambda>(driveId, folderId, visited, folderMap).
                    card (fst ` set folderMap - set visited)))"
    by simp
next
  fix driveId folderId :: doc_id and visited :: "doc_id list"
    and folderMap :: "(doc_id \<times> api_folder) list" and folder :: api_folder
    and parentId :: "doc_id option"
  assume fresh: "folderId \<notin> set visited" and found: "map_of folderMap folderId = Some folder"
  from found have "(folderId, folder) \<in> set folderMap"
    by (rule map_of_SomeD)
  then have "folderId \<in> fst ` set folderMap"
    by force
  with fresh have "fst ` set folderMap - set (folderId # visited)
                     \<subset> fst ` set folderMap - set visited"
    by auto
  then have "card (fst ` set folderMap - set (folderId # visited))
               < card (fst ` set folderMap - set visited)"
    by (intro psubset_card_mono) auto
  then show "((driveId, the parentId, folderId # visited, folderMap),
              (driveId, folderId, visited, folderMap))
             \<in> measure (\<lambda>(driveId, folderId, visited, folderMap).
                           card (fst ` set folderMap - set visited))"
    by simp
qed

declare calculatePath.simps [simp del]

text \<open>The \<^verbatim>\<open>folderMap\<close> built by the first \<^verbatim>\<open>forEach\<close>: every folder with \<^verbatim>\<open>full_path: null\<close>.\<close>

definition folderMap0 :: "api_folder list \<Rightarrow> (doc_id \<times> api_folder) list" where
  "folderMap0 fs = fold (\<lambda>folder m. AList.update (f_id folder) (folder\<lparr>f_full_path := None\<rparr>) m) fs []"

definition calculateFolderPaths :: "api_folder list \<Rightarrow> doc_id \<Rightarrow> api_folder list" where
  "calculateFolderPaths fs driveId =
     map snd (fold (\<lambda>folder m. snd (calculatePath driveId (f_id folder) [] m)) fs (folderMap0 fs))"

text \<open>
  \<^verbatim>\<open>getFoldersFromDrive\<close>: the folders directly under the drive (an error of this
  listing is rethrown), then the recursive walk, then the paths.
\<close>

definition getFoldersFromDrive ::
  "(doc_id \<Rightarrow> error + api_folder list) \<Rightarrow> doc_id \<Rightarrow> (error + api_folder list) option" where
  "getFoldersFromDrive listing driveId =
     (case listing driveId of
        Inl e \<Rightarrow> Some (Inl e)
      | Inr allFolders \<Rightarrow>
          Option.bind (getSubfoldersRecursively listing allFolders)
            (\<lambda>allSubfolders. Some (Inr (calculateFolderPaths (allFolders @ allSubfolders) driveId))))"

text \<open>
  The ids of the folders that lie under the ids of \<open>P\<close>, in one step or more, when
  \<open>children p\<close> are the folders directly under \<open>p\<close>.
\<close>

inductive_set descendants :: "(doc_id \<Rightarrow> api_folder list) \<Rightarrow> doc_id set \<Rightarrow> doc_id set"
  for children :: "doc_id \<Rightarrow> api_folder list" and P :: "doc_id set" where
  top: "p \<in> P \<Longrightarrow> c \<in> set (children p) \<Longrightarrow> f_id c \<in> descendants children P"
| sub: "p \<in> descendants children P \<Longrightarrow> c \<in> set (children p) \<Longrightarrow> f_id c \<in> descendants children P"

section \<open>Repeated writes to one document\<close>

text \<open>An optional field after a merge write: the value of the data when the data have one.\<close>

definition merge_field :: "'a option \<Rightarrow> 'a option \<Rightarrow> 'a option" where
  "merge_field old new = (case new of None \<Rightarrow> old | Some v \<Rightarrow> Some v)"



section \<open>Well-formed mirrors and listings\<close>

text \<open>
  Every stored record that carries \<open>created_by_frontend = true\<close> also has a
  \<open>created_at\<close>, as the records that \<^verbatim>\<open>saveNewSharedDrive\<close> writes do.
\<close>

definition frontend_drives_dated :: "store \<Rightarrow> bool" where
  "frontend_drives_dated st \<longleftrightarrow>
     (\<forall>(i, d) \<in> set (shared_drives st). dd_created_by_frontend d = Some True \<longrightarrow> dd_created_at d \<noteq> None)"

definition frontend_folders_dated :: "store \<Rightarrow> bool" where
  "frontend_folders_dated st \<longleftrightarrow>
     (\<forall>(i, d) \<in> set (folder_docs st). fd_created_by_frontend d = Some True \<longrightarrow> fd_created_at d \<noteq> None)"

text \<open>
  A fetched drive whose folders all have a parent or no array of parents, and whose
  managers all have an email address and a permission id.
\<close>

definition complete_listing :: "api_drive \<Rightarrow> bool" where
  "complete_listing drive \<longleftrightarrow>
     (\<forall>f \<in> set (case drv_folders drive of None \<Rightarrow> [] | Some fs \<Rightarrow> fs). f_parents f \<noteq> Some [])
     \<and> (\<forall>m \<in> set (case drv_managers drive of None \<Rightarrow> [] | Some ms \<Rightarrow> ms).
           js_or (m_email m) (m_emailAddress m) \<noteq> None \<and> js_or (m_permissionId m) (m_id m) \<noteq> None)"

section \<open>Concrete states and inputs\<close>

definition empty_store :: store where
  "empty_store = \<lparr>initialized = True, shared_drives = [], folder_docs = [], drive_managers = [],
                   sync_history = [], sync_status = None, commits = [], next_auto = 0\<rparr>"

definition idle_service :: sync_service where
  "idle_service = \<lparr>isRunning = False, currentSyncId = None, syncStats = resetStats\<rparr>"

text \<open>An id generator: the \<open>n\<close>-th automatic id is \<open>n + 1\<close> times the letter m.\<close>

definition auto_id :: "nat \<Rightarrow> doc_id" where
  "auto_id n = replicate (Suc n) (CHR ''m'')"

definition offline_provider :: provider where
  "offline_provider =
     \<lparr>drive_initialized = True,
      r_testConnection = Inl ''offline'',
      r_getAllSharedDrives = Inl (Provider ''offline''),
      r_getDriveInfo = (\<lambda>_. Inl (Provider ''offline'')),
      r_getFoldersFromDrive = (\<lambda>_ _. Inl (Provider ''offline'')),
      r_getManagersFromDrive = (\<lambda>_ _. Inl (Provider ''offline''))\<rparr>"

text \<open>
  A manager collection with one backend-synced manager of drive D1, one manager of D1
  that some other origin wrote, and one backend-synced manager of drive D2.
\<close>

definition old_manager :: "doc_id \<Rightarrow> string \<Rightarrow> bool \<Rightarrow> manager_doc" where
  "old_manager driveId email synced =
     \<lparr>md_driveId = driveId, md_driveName = ''Drive'', md_email = Some email,
      md_role = ''organizer'', md_type = ''user'', md_permissionId = Some ''p0'',
      md_displayName = None, md_photoLink = None, md_synced_at = 1,
      md_synced_by_backend = synced, md_undefined = []\<rparr>"

definition manager_store :: store where
  "manager_store = empty_store\<lparr>drive_managers :=
     [(''a1'', old_manager ''D1'' ''old@example.com'' True),
      (''a2'', old_manager ''D1'' ''ui@example.com'' False),
      (''a3'', old_manager ''D2'' ''other@example.com'' True)]\<rparr>"

definition alice :: api_manager where
  "alice = \<lparr>m_email = None, m_emailAddress = Some ''alice@example.com'', m_role = ''organizer'',
             m_type = ''user'', m_permissionId = None, m_id = Some ''p1'',
             m_displayName = Some ''Alice'', m_photoLink = None\<rparr>"

text \<open>The writes that \<^verbatim>\<open>syncSharedDrives\<close> queues, in order: the deletions, then the upserts.\<close>

definition drive_writes :: "timestamp \<Rightarrow> (doc_id \<times> drive_doc) list \<Rightarrow> api_drive list \<Rightarrow> write_op list" where
  "drive_writes now existingDrives drivesFromAPI =
     map Delete_drive (drivesToDelete existingDrives drivesFromAPI)
     @ map (\<lambda>drive. Set_drive (drv_id drive) (driveData now existingDrives drive)) drivesFromAPI"

text \<open>The writes that \<^verbatim>\<open>syncFoldersForDrive\<close> queues while the store is \<open>st\<close>.\<close>

definition folder_writes :: "timestamp \<Rightarrow> doc_id \<Rightarrow> store \<Rightarrow> api_folder list \<Rightarrow> write_op list" where
  "folder_writes now driveId st foldersFromAPI =
     map (\<lambda>folder. Set_folder (f_id folder)
            (folderData now driveId (map_of (folder_docs st) (f_id folder)) folder)) foldersFromAPI"

text \<open>Drives, folders and mirror records with numbered ids, for inputs of any size.\<close>

definition plain_drive :: "doc_id \<Rightarrow> api_drive" where
  "plain_drive i =
     \<lparr>drv_id = i, drv_name = i, drv_kind = ''drive#drive'', drv_colorRgb = None,
      drv_backgroundImageFile = None, drv_capabilities = None,
      drv_createdTime = ''2024-01-01T00:00:00.000Z'', drv_hidden = None,
      drv_restrictions = None, drv_folders = None, drv_managers = None\<rparr>"

definition many_drives :: "nat \<Rightarrow> api_drive list" where
  "many_drives n = map (\<lambda>k. plain_drive (replicate (Suc k) (CHR ''d''))) [0 ..< n]"

definition plain_folder :: "doc_id \<Rightarrow> doc_id \<Rightarrow> api_folder" where
  "plain_folder i parent =
     \<lparr>f_id = i, f_name = i, f_parents = Some [parent],
      f_mimeType = ''application/vnd.google-apps.folder'',
      f_createdTime = ''2024-01-01T00:00:00.000Z'',
      f_modifiedTime = ''2024-01-01T00:00:00.000Z'', f_full_path = None\<rparr>"

definition many_folders :: "doc_id \<Rightarrow> nat \<Rightarrow> api_folder list" where
  "many_folders parent n = map (\<lambda>k. plain_folder (replicate (Suc k) (CHR ''f'')) parent) [0 ..< n]"

definition stale_mirror :: "nat \<Rightarrow> store" where
  "stale_mirror n = empty_store\<lparr>shared_drives :=
     map (\<lambda>k. (replicate (Suc k) (CHR ''s''), driveData 1 [] (plain_drive (replicate (Suc k) (CHR ''s'')))))
       [0 ..< n]\<rparr>"

text \<open>A mirror with a drive D1 and a folder F1 that the frontend created at time 3.\<close>

definition frontend_drive :: drive_doc where
  "frontend_drive = (driveData 3 [] (plain_drive ''D1''))
                      \<lparr>dd_created_by_frontend := Some True, dd_created_at := Some 3\<rparr>"

definition frontend_folder :: folder_doc where
  "frontend_folder = (folderData 3 ''D1'' None (plain_folder ''F1'' ''D1''))
                       \<lparr>fd_created_by_frontend := Some True, fd_created_at := Some 3\<rparr>"

definition frontend_store :: store where
  "frontend_store = empty_store\<lparr>shared_drives := [(''D1'', frontend_drive)],
                                folder_docs := [(''F1'', frontend_folder)]\<rparr>"

text \<open>The mirror of the scenario: it holds the drives D1 and D3.\<close>

definition scenario_mirror :: store where
  "scenario_mirror = empty_store\<lparr>shared_drives :=
     [(''D1'', driveData 1 [] (plain_drive ''D1'')), (''D3'', driveData 1 [] (plain_drive ''D3''))]\<rparr>"

section \<open>What path resolution is meant to compute\<close>

text \<open>
  The path of a folder of the map whose chain of first parents stays in the map and ends
  at a folder directly under the drive (or without parent): the names along the chain,
  each after a slash.
\<close>

inductive path_to :: "(doc_id \<times> api_folder) list \<Rightarrow> doc_id \<Rightarrow> doc_id \<Rightarrow> string \<Rightarrow> bool"
  for fm :: "(doc_id \<times> api_folder) list" and d :: doc_id where
  root: "map_of fm i = Some f \<Longrightarrow> \<not> truthy (first_parent f) \<or> first_parent f = Some d
         \<Longrightarrow> path_to fm d i (''/'' @ f_name f)"
| child: "map_of fm i = Some f \<Longrightarrow> first_parent f = Some p \<Longrightarrow> truthy (Some p) \<Longrightarrow> p \<noteq> d
         \<Longrightarrow> path_to fm d p pp \<Longrightarrow> path_to fm d i (pp @ ''/'' @ f_name f)"

text \<open>The steps from a folder to the parent that \<^verbatim>\<open>calculatePath\<close> recurses on.\<close>

definition parent_steps :: "(doc_id \<times> api_folder) list \<Rightarrow> doc_id \<Rightarrow> (doc_id \<times> doc_id) set" where
  "parent_steps fm d =
     {(c, p). \<exists>f. map_of fm c = Some f \<and> first_parent f = Some p \<and> truthy (Some p) \<and> p \<noteq> d}"

text \<open>A map with its paths forgotten.\<close>

definition unresolved :: "(doc_id \<times> api_folder) list \<Rightarrow> (doc_id \<times> api_folder) list" where
  "unresolved fm = map (\<lambda>(k, f). (k, f\<lparr>f_full_path := None\<rparr>)) fm"

text \<open>The folders A, B, C of a chain under the drive D1, and the folders D and E that are each other's parent.\<close>

definition chain_folders :: "api_folder list" where
  "chain_folders = [plain_folder ''C'' ''B'', plain_folder ''A'' ''D1'', plain_folder ''B'' ''A'']"

definition cycle_folders :: "api_folder list" where
  "cycle_folders = [plain_folder ''D'' ''E'', plain_folder ''E'' ''D'']"

text \<open>
  The state of the map during resolution: the folders are those of \<open>fm0\<close>, and a path
  that is already stored is the right one for every folder that has one.
\<close>

definition resolved_so_far ::
  "(doc_id \<times> api_folder) list \<Rightarrow> doc_id \<Rightarrow> (doc_id \<times> api_folder) list \<Rightarrow> bool" where
  "resolved_so_far fm0 d fm \<longleftrightarrow>
     unresolved fm = fm0
     \<and> (\<forall>j f p q. map_of fm j = Some f \<longrightarrow> f_full_path f = Some p \<longrightarrow> path_to fm0 d j q \<longrightarrow> p = q)"

definition keeps_paths :: "(doc_id \<times> api_folder) list \<Rightarrow> (doc_id \<times> api_folder) list \<Rightarrow> bool" where
  "keeps_paths fm fm' \<longleftrightarrow>
     (\<forall>j f p. map_of fm j = Some f \<longrightarrow> f_full_path f = Some p
        \<longrightarrow> (\<exists>f'. map_of fm' j = Some f' \<and> f_full_path f' = Some p))"

text \<open>
  Two listings for the drive D1: in the first, A is under the drive and B under A; in
  the second, X is under the drive, Y is listed under X, and X is listed under Y.
\<close>

definition tree_listing :: "doc_id \<Rightarrow> error + api_folder list" where
  "tree_listing p =
     (if p = ''D1'' then Inr [plain_folder ''A'' ''D1'']
      else if p = ''A'' then Inr [plain_folder ''B'' ''A'']
      else Inr [])"

definition tree_rank :: "doc_id \<Rightarrow> nat" where
  "tree_rank p = (if p = ''D1'' then 2 else if p = ''A'' then 1 else 0)"

definition cyclic_listing :: "doc_id \<Rightarrow> error + api_folder list" where
  "cyclic_listing p =
     (if p = ''D1'' then Inr [plain_folder ''X'' ''D1'']
      else if p = ''X'' then Inr [plain_folder ''Y'' ''X'']
      else if p = ''Y'' then Inr [plain_folder ''X'' ''Y'']
      else Inr [])"

text \<open>
  A provider that holds A and B under the drive D1 and A1 under A, and the calls on it
  when the one for A fails.
\<close>

definition flaky_tree :: "doc_id \<Rightarrow> api_folder list" where
  "flaky_tree p =
     (if p = ''D1'' then [plain_folder ''A'' ''D1'', plain_folder ''B'' ''D1'']
      else if p = ''A'' then [plain_folder ''A1'' ''A'']
      else [])"

definition flaky_listing :: "doc_id \<Rightarrow> error + api_folder list" where
  "flaky_listing p = (if p = ''A'' then Inl (Provider ''rate limit exceeded'') else Inr (flaky_tree p))"

text \<open>
  The error entries that the loop of \<^verbatim>\<open>syncToFirestore\<close> adds on an initialized
  store, for listings that have all their values: one for every drive with more folders
  than one batch takes.
\<close>

definition mirror_errors :: "api_drive list \<Rightarrow> string list" where
  "mirror_errors drives =
     concat (map (\<lambda>drive.
        if length (case drv_folders drive of None \<Rightarrow> [] | Some fs \<Rightarrow> fs) \<le> batchSize then []
        else [''Error sincronizando unidad '' @ drv_name drive @ '' a Firestore: ''
                @ message Batch_committed]) drives)"

text \<open>The ids of the folders that reach the mirror: of every drive, its first 500.\<close>

definition mirrored_folder_ids :: "api_drive list \<Rightarrow> doc_id set" where
  "mirrored_folder_ids drives =
     (\<Union>drive \<in> set drives.
        f_id ` set (take batchSize (case drv_folders drive of None \<Rightarrow> [] | Some fs \<Rightarrow> fs)))"

text \<open>
  A provider with the drives X and Y: fetching the folders of X fails; Y has 501
  folders and one manager.
\<close>

definition two_drive_provider :: provider where
  "two_drive_provider =
     \<lparr>drive_initialized = True,
      r_testConnection = Inr ''admin@example.com'',
      r_getAllSharedDrives = Inr [plain_drive ''X'', plain_drive ''Y''],
      r_getDriveInfo = (\<lambda>i. Inr (plain_drive i)),
      r_getFoldersFromDrive =
        (\<lambda>i _. if i = ''X'' then Inl (Provider ''quota exceeded'') else Inr (many_folders i 501)),
      r_getManagersFromDrive = (\<lambda>_ _. Inr [alice])\<rparr>"

section \<open>Properties\<close>

subsection \<open>The status document at the end of a run\<close>

lemma updateSyncStatus_terminal:
  assumes "initialized st" and "status = ''completed'' \<or> status = ''failed''"
  shows "\<exists>d. sync_status (updateSyncStatus status None now st) = Some d
           \<and> sd_last_sync d = Some now \<and> sd_current_sync_id d = None \<and> sd_status d = status"
  using assms by (auto simp: updateSyncStatus_def updateData_def merge_status_def)

text \<open>
  C5. Every terminal status should set \<open>last_sync\<close> and clear \<open>current_sync_id\<close>.
  The test in \<^verbatim>\<open>updateSyncStatus\<close> names \<^verbatim>\<open>completed\<close> and \<^verbatim>\<open>failed\<close> only:
  after a run was announced as running under the id run-1, the update for the terminal
  status \<^verbatim>\<open>completed_with_errors\<close> leaves \<open>current_sync_id\<close> at run-1 and
  \<open>last_sync\<close> unset.
\<close>

theorem updateSyncStatus_completed_with_errors_keeps_run_id:
  "sync_status (updateSyncStatus ''completed_with_errors'' None 20
                 (updateSyncStatus ''running'' (Some ''run-1'') 10 empty_store))
   = Some \<lparr>sd_status = ''completed_with_errors'', sd_updated_at = 20,
            sd_current_sync_id = Some ''run-1'', sd_last_sync = None\<rparr>"
  by (simp add: updateSyncStatus_def updateData_def merge_status_def empty_store_def)

subsection \<open>The single-run guard\<close>

text \<open>
  C2. A call of \<^verbatim>\<open>performSync\<close> or \<^verbatim>\<open>performIncrementalSync\<close> on a service
  whose run is in progress throws the already-running error at once, and leaves the
  service (its run id and its running flag) and the store as they were.
\<close>

theorem performSync_rejects_while_running:
  assumes "isRunning svc"
  shows "performSync gen p uuid now fin (svc, st) = (Inl Already_running, svc, st)
       \<and> performIncrementalSync gen p driveIds uuid now fin (svc, st) = (Inl Already_running, svc, st)"
  using assms by (simp add: performSync_def performIncrementalSync_def)

theorem performSync_rejects_while_running_witness:
  "isRunning (start_run ''run-1'' 5 idle_service)
   \<and> currentSyncId (start_run ''run-1'' 5 idle_service) = Some ''run-1''
   \<and> performSync auto_id offline_provider ''run-2'' 6 7 (start_run ''run-1'' 5 idle_service, empty_store)
       = (Inl Already_running, start_run ''run-1'' 5 idle_service, empty_store)
   \<and> performIncrementalSync auto_id offline_provider [''D1''] ''run-2'' 6 7
        (start_run ''run-1'' 5 idle_service, empty_store)
       = (Inl Already_running, start_run ''run-1'' 5 idle_service, empty_store)"
  using performSync_rejects_while_running
          [of "start_run ''run-1'' 5 idle_service" auto_id offline_provider "''run-2''" 6 7
              empty_store "[''D1'']"]
  by (simp add: start_run_def)

subsection \<open>Replacing the managers of a drive\<close>

lemma batch_add_valid:
  "undefined_keys w = [] \<Longrightarrow>
     batch_add w b = (if committed b then Inl Batch_committed else Inr (b\<lparr>pending := pending b @ [w]\<rparr>))"
  by (simp add: batch_add_def)

lemma batch_add_undefined:
  "undefined_keys w \<noteq> [] \<Longrightarrow> batch_add w b = Inl (Undefined_value (hd (undefined_keys w)))"
  by (cases "undefined_keys w") (simp_all add: batch_add_def)

lemma batch_add_committed: "committed b \<Longrightarrow> batch_add w b = Inl (refused w)"
  by (simp add: batch_add_def refused_def split: list.splits)

lemma batch_add_all_open:
  "\<not> committed b \<Longrightarrow> (\<forall>w \<in> set ws. undefined_keys w = []) \<Longrightarrow>
     batch_add_all ws b = Inr (b\<lparr>pending := pending b @ ws\<rparr>)"
  by (induction ws arbitrary: b) (simp_all add: batch_add_valid)

text \<open>A batch takes all the writes only when none of them has an undefined value.\<close>

lemma batch_add_all_Inr:
  "batch_add_all ws b = Inr b' \<Longrightarrow>
     b' = b\<lparr>pending := pending b @ ws\<rparr> \<and> (\<forall>w \<in> set ws. undefined_keys w = [])"
proof (induction ws arbitrary: b)
  case Nil
  then show ?case by simp
next
  case (Cons w ws)
  from Cons.prems obtain b1 where b1: "batch_add w b = Inr b1" "batch_add_all ws b1 = Inr b'"
    by (auto split: sum.splits)
  from b1(1) have w: "undefined_keys w = []" "b1 = b\<lparr>pending := pending b @ [w]\<rparr>"
    by (auto simp: batch_add_def split: list.splits if_splits)
  from Cons.IH[OF b1(2)] w show ?case
    by simp
qed

lemma batch_add_all_Inl:
  "\<not> committed b \<Longrightarrow> \<exists>w \<in> set ws. undefined_keys w \<noteq> [] \<Longrightarrow>
     batch_add_all ws b
       = Inl (Undefined_value (hd (undefined_keys (ws ! length (takeWhile (\<lambda>w. undefined_keys w = []) ws)))))"
proof (induction ws arbitrary: b)
  case Nil
  then show ?case by simp
next
  case (Cons w ws)
  show ?case
  proof (cases "undefined_keys w = []")
    case True
    with Cons.prems(2) have "\<exists>w \<in> set ws. undefined_keys w \<noteq> []"
      by auto
    moreover have "\<not> committed (b\<lparr>pending := pending b @ [w]\<rparr>)"
      using Cons.prems(1) by simp
    ultimately show ?thesis
      using True Cons.prems(1) by (simp add: batch_add_valid Cons.IH)
  next
    case False
    then show ?thesis
      by (simp add: batch_add_undefined)
  qed
qed

lemma apply_writes_append:
  "apply_writes (ws1 @ ws2) st = apply_writes ws2 (apply_writes ws1 st)"
  by (induction ws1 arbitrary: st) simp_all

lemma delete_as_filter: "AList.delete k al = filter (\<lambda>(k', _). k' \<noteq> k) al"
  by (induction al) auto

lemma apply_manager_deletes:
  "apply_writes (map (\<lambda>(i, _). Delete_manager i) xs) st
     = st\<lparr>drive_managers := filter (\<lambda>(k, _). k \<notin> fst ` set xs) (drive_managers st)\<rparr>"
proof (induction xs arbitrary: st)
  case Nil
  then show ?case by simp
next
  case (Cons x xs)
  obtain i m where x: "x = (i, m)" by (cases x)
  have "filter (\<lambda>(k, _). k \<notin> fst ` set xs) (filter (\<lambda>(k', _). k' \<noteq> i) (drive_managers st))
          = filter (\<lambda>(k, _). k \<notin> fst ` set (x # xs)) (drive_managers st)"
    by (auto simp: x intro: filter_cong)
  then show ?case
    by (simp add: Cons.IH x delete_as_filter)
qed

lemma update_fresh: "k \<notin> fst ` set al \<Longrightarrow> AList.update k v al = al @ [(k, v)]"
  by (induction al) auto

lemma apply_manager_sets:
  assumes "distinct refs" and "set refs \<inter> fst ` set (drive_managers st) = {}"
    and "length refs = length docs"
  shows "apply_writes (map (\<lambda>(r, d). Set_manager r d) (zip refs docs)) st
           = st\<lparr>drive_managers := drive_managers st @ zip refs docs\<rparr>"
  using assms
proof (induction refs arbitrary: docs st)
  case Nil
  then show ?case by simp
next
  case (Cons r refs)
  then obtain d ds where docs: "docs = d # ds"
    by (cases docs) auto
  let ?st1 = "st\<lparr>drive_managers := drive_managers st @ [(r, d)]\<rparr>"
  have "set refs \<inter> fst ` set (drive_managers ?st1) = {}"
    using Cons.prems(1,2) by auto
  with Cons.IH[of ?st1 ds] Cons.prems(1,3) docs
  have "apply_writes (map (\<lambda>(r, d). Set_manager r d) (zip refs ds)) ?st1
          = ?st1\<lparr>drive_managers := drive_managers ?st1 @ zip refs ds\<rparr>"
    by simp
  moreover have "r \<notin> fst ` set (drive_managers st)"
    using Cons.prems(2) by auto
  ultimately show ?case
    by (simp add: docs update_fresh)
qed

lemma zip_keys_subset: "fst ` set (zip xs ys) \<subseteq> set xs"
proof
  fix k assume "k \<in> fst ` set (zip xs ys)"
  then obtain v where "(k, v) \<in> set (zip xs ys)" by force
  then show "k \<in> set xs" by (rule set_zip_leftD)
qed

lemma fresh_refs:
  assumes "\<forall>k < n. gen (a + k) \<notin> K"
  shows "set (map gen [a ..< a + n]) \<inter> K = {}"
proof (rule ccontr)
  assume "set (map gen [a ..< a + n]) \<inter> K \<noteq> {}"
  then obtain j where j: "a \<le> j" "j < a + n" "gen j \<in> K"
    by force
  then have "j - a < n" by simp
  with assms have "gen (a + (j - a)) \<notin> K"
    by blast
  with j show False by simp
qed

lemma manager_sets_valid:
  assumes "length refs = length ms"
  shows "(\<forall>w \<in> set (map (\<lambda>(r, manager). Set_manager r (managerData now driveId driveName manager))
                          (zip refs ms)). undefined_keys w = [])
         \<longleftrightarrow> (\<forall>m \<in> set ms. md_undefined (managerData now driveId driveName m) = [])"
proof
  assume l: "\<forall>w \<in> set (map (\<lambda>(r, manager). Set_manager r (managerData now driveId driveName manager))
                          (zip refs ms)). undefined_keys w = []"
  show "\<forall>m \<in> set ms. md_undefined (managerData now driveId driveName m) = []"
  proof
    fix m assume "m \<in> set ms"
    then obtain i where i: "i < length ms" "ms ! i = m"
      by (auto simp: in_set_conv_nth)
    with assms have "(refs ! i, m) \<in> set (zip refs ms)"
      by (auto simp: set_zip)
    then have "Set_manager (refs ! i) (managerData now driveId driveName m)
                 \<in> set (map (\<lambda>(r, manager). Set_manager r (managerData now driveId driveName manager))
                          (zip refs ms))"
      by force
    with l have "undefined_keys (Set_manager (refs ! i) (managerData now driveId driveName m)) = []"
      by blast
    then show "md_undefined (managerData now driveId driveName m) = []"
      by simp
  qed
next
  assume "\<forall>m \<in> set ms. md_undefined (managerData now driveId driveName m) = []"
  then show "\<forall>w \<in> set (map (\<lambda>(r, manager). Set_manager r (managerData now driveId driveName manager))
                          (zip refs ms)). undefined_keys w = []"
    by (auto dest: set_zip_rightD)
qed

text \<open>A call that succeeds was made on an initialized service with managers that have all their values.\<close>

lemma syncManagersForDrive_Inr:
  assumes "syncManagersForDrive gen now driveId driveName ms st = (Inr n, st')"
  shows "initialized st"
    and "\<forall>m \<in> set ms. md_undefined (managerData now driveId driveName m) = []"
proof -
  show init: "initialized st"
    using assms by (auto simp: syncManagersForDrive_def split: if_splits)
  let ?refs = "map gen [next_auto st ..< next_auto st + length ms]"
  let ?dels = "map (\<lambda>(i, _). Delete_manager i) (existingManagers driveId st)"
  let ?sets = "map (\<lambda>(r, manager). Set_manager r (managerData now driveId driveName manager)) (zip ?refs ms)"
  from assms init obtain b where "batch_add_all (?dels @ ?sets) new_batch = Inr b"
    by (auto simp: syncManagersForDrive_def Let_def split: sum.splits)
  from batch_add_all_Inr[OF this] have "\<forall>w \<in> set (?dels @ ?sets). undefined_keys w = []"
    by (rule conjunct2)
  then have "\<forall>w \<in> set ?sets. undefined_keys w = []"
    by (simp only: set_append) blast
  then show "\<forall>m \<in> set ms. md_undefined (managerData now driveId driveName m) = []"
    by (subst (asm) manager_sets_valid) simp_all
qed

lemma syncManagersForDrive_unfold:
  assumes "initialized st"
    and "\<forall>m \<in> set ms. md_undefined (managerData now driveId driveName m) = []"
  shows "syncManagersForDrive gen now driveId driveName ms st =
     (Inr (length ms),
      commit_writes
        (map (\<lambda>(i, _). Delete_manager i) (existingManagers driveId st)
         @ map (\<lambda>(r, manager). Set_manager r (managerData now driveId driveName manager))
             (zip (map gen [next_auto st ..< next_auto st + length ms]) ms))
        (st\<lparr>next_auto := next_auto st + length ms\<rparr>))"
proof -
  let ?refs = "map gen [next_auto st ..< next_auto st + length ms]"
  let ?dels = "map (\<lambda>(i, _). Delete_manager i) (existingManagers driveId st)"
  let ?sets = "map (\<lambda>(r, manager). Set_manager r (managerData now driveId driveName manager)) (zip ?refs ms)"
  have "\<forall>w \<in> set ?sets. undefined_keys w = []"
    using assms(2) by (subst manager_sets_valid) simp_all
  moreover have "\<forall>w \<in> set ?dels. undefined_keys w = []"
    by auto
  ultimately have "\<forall>w \<in> set (?dels @ ?sets). undefined_keys w = []"
    by (simp only: set_append) blast
  then have "batch_add_all (?dels @ ?sets) new_batch = Inr (new_batch\<lparr>pending := pending new_batch @ (?dels @ ?sets)\<rparr>)"
    by (intro batch_add_all_open) (simp_all add: new_batch_def)
  then show ?thesis
    using assms(1) by (simp add: syncManagersForDrive_def Let_def new_batch_def batch_commit_def)
qed

text \<open>When a manager lacks a value, the call throws and writes nothing.\<close>

lemma syncManagersForDrive_undefined:
  assumes "initialized st"
    and "\<exists>m \<in> set ms. md_undefined (managerData now driveId driveName m) \<noteq> []"
  shows "\<exists>field k. syncManagersForDrive gen now driveId driveName ms st
                      = (Inl (Undefined_value field), st\<lparr>next_auto := k\<rparr>)"
proof -
  let ?refs = "map gen [next_auto st ..< next_auto st + length ms]"
  let ?dels = "map (\<lambda>(i, _). Delete_manager i) (existingManagers driveId st)"
  let ?sets = "map (\<lambda>(r, manager). Set_manager r (managerData now driveId driveName manager)) (zip ?refs ms)"
  have "\<not> (\<forall>w \<in> set ?sets. undefined_keys w = [])"
    using assms(2) by (subst manager_sets_valid) simp_all
  then have "\<exists>w \<in> set (?dels @ ?sets). undefined_keys w \<noteq> []"
    by auto
  then have "\<exists>field. batch_add_all (?dels @ ?sets) new_batch = Inl (Undefined_value field)"
    by (subst batch_add_all_Inl) (simp_all add: new_batch_def)
  then show ?thesis
    using assms(1) by (auto simp: syncManagersForDrive_def Let_def)
qed

lemma syncManagersForDrive_store:
  assumes "initialized st"
    and valid: "\<forall>m \<in> set ms. md_undefined (managerData now driveId driveName m) = []"
    and fresh: "\<forall>k < length ms. gen (next_auto st + k) \<notin> fst ` set (drive_managers st)"
    and inj: "inj_on gen {next_auto st ..< next_auto st + length ms}"
  shows "syncManagersForDrive gen now driveId driveName ms st =
           (Inr (length ms),
            st\<lparr>next_auto := next_auto st + length ms,
               drive_managers :=
                 filter (\<lambda>(k, _). k \<notin> fst ` set (existingManagers driveId st)) (drive_managers st)
                 @ zip (map gen [next_auto st ..< next_auto st + length ms])
                       (map (managerData now driveId driveName) ms),
               commits := commits st @
                 [map (\<lambda>(i, _). Delete_manager i) (existingManagers driveId st)
                  @ map (\<lambda>(r, d). Set_manager r d)
                      (zip (map gen [next_auto st ..< next_auto st + length ms])
                           (map (managerData now driveId driveName) ms))]\<rparr>)"
proof -
  let ?refs = "map gen [next_auto st ..< next_auto st + length ms]"
  let ?docs = "map (managerData now driveId driveName) ms"
  let ?dels = "map (\<lambda>(i, _). Delete_manager i) (existingManagers driveId st)"
  let ?st0 = "st\<lparr>next_auto := next_auto st + length ms\<rparr>"
  have sets: "map (\<lambda>(r, manager). Set_manager r (managerData now driveId driveName manager)) (zip ?refs ms)
                = map (\<lambda>(r, d). Set_manager r d) (zip ?refs ?docs)"
    by (simp add: zip_map2 case_prod_unfold)
  let ?st1 = "apply_writes ?dels ?st0"
  have st1: "?st1 = ?st0\<lparr>drive_managers :=
                filter (\<lambda>(k, _). k \<notin> fst ` set (existingManagers driveId st)) (drive_managers st)\<rparr>"
    by (simp add: apply_manager_deletes)
  have dist: "distinct ?refs"
    using inj by (simp add: distinct_map)
  have "set ?refs \<inter> fst ` set (drive_managers st) = {}"
    using fresh_refs[where gen = gen and a = "next_auto st" and n = "length ms"
            and K = "fst ` set (drive_managers st)"] fresh
    by simp
  moreover have "fst ` set (drive_managers ?st1) \<subseteq> fst ` set (drive_managers st)"
    by (auto simp: st1)
  ultimately have disj: "set ?refs \<inter> fst ` set (drive_managers ?st1) = {}"
    by blast
  have "apply_writes (map (\<lambda>(r, d). Set_manager r d) (zip ?refs ?docs)) ?st1
          = ?st1\<lparr>drive_managers := drive_managers ?st1 @ zip ?refs ?docs\<rparr>"
    using dist disj by (intro apply_manager_sets) simp_all
  then show ?thesis
    unfolding syncManagersForDrive_unfold[OF assms(1) valid]
    by (simp add: commit_writes_def apply_writes_append sets st1 del: apply_writes.simps)
qed

lemma disjoint_from_both:
  "E \<inter> K = {} \<Longrightarrow> Z \<subseteq> R \<Longrightarrow> R \<inter> D = {} \<Longrightarrow> E \<subseteq> D \<Longrightarrow> E \<inter> (K \<union> Z) = {}"
  by blast

text \<open>
  C4. After \<^verbatim>\<open>syncManagersForDrive\<close> succeeds, the backend-synced manager records
  of the drive are exactly the records built from the supplied managers, one for each
  and in their order (so, as a set of email, role and permission id, exactly the supplied
  set); no id of a prior backend-synced record of the drive is left in the collection;
  and the records that are not backend-synced records of this drive are the same as
  before. The automatic ids are taken to be new and pairwise distinct, and the ids of
  the collection to be unique.
\<close>

theorem syncManagersForDrive_replaces_backend_managers:
  assumes ok: "syncManagersForDrive gen now driveId driveName managersFromAPI st = (Inr n, st')"
    and dist: "distinct (map fst (drive_managers st))"
    and fresh: "\<forall>k < length managersFromAPI.
                  gen (next_auto st + k) \<notin> fst ` set (drive_managers st)"
    and inj: "inj_on gen {next_auto st ..< next_auto st + length managersFromAPI}"
  shows "map snd (existingManagers driveId st') = map (managerData now driveId driveName) managersFromAPI
       \<and> (\<lambda>(i, m). (md_email m, md_role m, md_permissionId m)) ` set (existingManagers driveId st')
           = (\<lambda>a. (js_or (m_email a) (m_emailAddress a), m_role a, js_or (m_permissionId a) (m_id a)))
               ` set managersFromAPI
       \<and> fst ` set (existingManagers driveId st) \<inter> fst ` set (drive_managers st') = {}
       \<and> filter (\<lambda>(i, m). \<not> (md_driveId m = driveId \<and> md_synced_by_backend m)) (drive_managers st')
           = filter (\<lambda>(i, m). \<not> (md_driveId m = driveId \<and> md_synced_by_backend m)) (drive_managers st)"
proof -
  define P where "P = (\<lambda>(i :: doc_id, m :: manager_doc). md_driveId m = driveId \<and> md_synced_by_backend m)"
  define dm where "dm = drive_managers st"
  define ex where "ex = existingManagers driveId st"
  define kept where "kept = filter (\<lambda>(k, _). k \<notin> fst ` set ex) dm"
  define refs where "refs = map gen [next_auto st ..< next_auto st + length managersFromAPI]"
  define docs where "docs = map (managerData now driveId driveName) managersFromAPI"
  have ex_def': "ex = filter P dm"
    by (simp add: ex_def existingManagers_def P_def dm_def)
  have len: "length refs = length docs"
    by (simp add: refs_def docs_def)
  have init: "initialized st"
    using ok by (rule syncManagersForDrive_Inr(1))
  have valid: "\<forall>m \<in> set managersFromAPI. md_undefined (managerData now driveId driveName m) = []"
    using ok by (rule syncManagersForDrive_Inr(2))
  have "drive_managers (snd (syncManagersForDrive gen now driveId driveName managersFromAPI st))
          = kept @ zip refs docs"
    unfolding syncManagersForDrive_store[OF init valid fresh inj] kept_def ex_def dm_def refs_def docs_def
    by simp
  then have dm': "drive_managers st' = kept @ zip refs docs"
    unfolding ok by simp
  have kept_none: "filter P kept = []"
    unfolding kept_def ex_def' by (force simp: filter_empty_conv)
  have docsP: "\<And>r d. d \<in> set docs \<Longrightarrow> P (r, d)"
    by (auto simp: docs_def P_def managerData_def)
  have new_all: "filter P (zip refs docs) = zip refs docs"
    unfolding filter_id_conv using docsP by (auto dest: set_zip_rightD)
  have new_none: "filter (\<lambda>x. \<not> P x) (zip refs docs) = []"
    unfolding filter_empty_conv using docsP by (auto dest: set_zip_rightD)
  have "existingManagers driveId st' = filter P (drive_managers st')"
    by (simp add: existingManagers_def P_def)
  also have "\<dots> = filter P kept @ filter P (zip refs docs)"
    by (simp only: dm' filter_append)
  also have "\<dots> = zip refs docs"
    by (simp only: kept_none new_all append_Nil)
  finally have ex': "existingManagers driveId st' = zip refs docs" .
  have one: "map snd (existingManagers driveId st') = docs"
    using len by (simp add: ex')
  have "(\<lambda>(i, m). (md_email m, md_role m, md_permissionId m)) ` set (existingManagers driveId st')
          = (\<lambda>m. (md_email m, md_role m, md_permissionId m)) ` snd ` set (existingManagers driveId st')"
    by (simp add: image_image case_prod_unfold)
  also have "\<dots> = (\<lambda>m. (md_email m, md_role m, md_permissionId m)) ` set docs"
    using one by (metis set_map)
  also have "\<dots> = (\<lambda>a. (js_or (m_email a) (m_emailAddress a), m_role a, js_or (m_permissionId a) (m_id a)))
                     ` set managersFromAPI"
    unfolding docs_def by (simp add: image_image managerData_def)
  finally have two: "(\<lambda>(i, m). (md_email m, md_role m, md_permissionId m)) ` set (existingManagers driveId st')
          = (\<lambda>a. (js_or (m_email a) (m_emailAddress a), m_role a, js_or (m_permissionId a) (m_id a)))
               ` set managersFromAPI" .
  have refs_new: "set refs \<inter> fst ` set dm = {}"
    unfolding refs_def dm_def
    using fresh_refs[where gen = gen and a = "next_auto st" and n = "length managersFromAPI"
            and K = "fst ` set (drive_managers st)"] fresh
    by simp
  have ex_sub: "fst ` set ex \<subseteq> fst ` set dm"
    unfolding ex_def' by auto
  have ex_kept: "fst ` set ex \<inter> fst ` set kept = {}"
    unfolding kept_def by force
  have "fst ` set ex \<inter> (fst ` set kept \<union> fst ` set (zip refs docs)) = {}"
    by (rule disjoint_from_both[OF ex_kept zip_keys_subset refs_new ex_sub])
  then have three: "fst ` set ex \<inter> fst ` set (drive_managers st') = {}"
    by (simp only: dm' set_append image_Un)
  have others: "k \<notin> fst ` set ex" if km: "(k, m) \<in> set dm" and np: "\<not> P (k, m)" for k m
  proof
    assume "k \<in> fst ` set ex"
    then obtain m' where m': "(k, m') \<in> set dm" "P (k, m')"
      unfolding ex_def' by auto
    from dist km m'(1) have "m = m'"
      unfolding dm_def by (meson eq_key_imp_eq_value)
    with np m'(2) show False by simp
  qed
  have keep_others: "filter (\<lambda>x. \<not> P x) kept = filter (\<lambda>x. \<not> P x) dm"
    unfolding kept_def filter_filter using others by (intro filter_cong) auto
  have four: "filter (\<lambda>x. \<not> P x) (drive_managers st') = filter (\<lambda>x. \<not> P x) dm"
    by (simp only: dm' filter_append new_none keep_others append_Nil2)
  have nP: "(\<lambda>x. \<not> P x) = (\<lambda>(i, m). \<not> (md_driveId m = driveId \<and> md_synced_by_backend m))"
    by (auto simp: P_def)
  note c1 = one[unfolded docs_def]
  note c3 = three[unfolded ex_def]
  note c4 = four[unfolded nP dm_def]
  show ?thesis
    apply (intro conjI)
       apply (rule c1)
      apply (rule two)
     apply (rule c3)
    apply (rule c4)
    done
qed

theorem syncManagersForDrive_replaces_backend_managers_witness:
  "syncManagersForDrive auto_id 7 ''D1'' ''Drive one'' [alice] manager_store
     = (Inr 1, snd (syncManagersForDrive auto_id 7 ''D1'' ''Drive one'' [alice] manager_store))
   \<and> map snd (existingManagers ''D1''
         (snd (syncManagersForDrive auto_id 7 ''D1'' ''Drive one'' [alice] manager_store)))
       = [managerData 7 ''D1'' ''Drive one'' alice]
   \<and> (\<lambda>(i, m). (md_email m, md_role m, md_permissionId m)) `
         set (existingManagers ''D1''
           (snd (syncManagersForDrive auto_id 7 ''D1'' ''Drive one'' [alice] manager_store)))
       = {(Some ''alice@example.com'', ''organizer'', Some ''p1'')}
   \<and> ''a1'' \<notin> fst ` set (drive_managers
           (snd (syncManagersForDrive auto_id 7 ''D1'' ''Drive one'' [alice] manager_store)))
   \<and> filter (\<lambda>(i, m). \<not> (md_driveId m = ''D1'' \<and> md_synced_by_backend m))
         (drive_managers (snd (syncManagersForDrive auto_id 7 ''D1'' ''Drive one'' [alice] manager_store)))
       = [(''a2'', old_manager ''D1'' ''ui@example.com'' False),
          (''a3'', old_manager ''D2'' ''other@example.com'' True)]"
proof -
  let ?st' = "snd (syncManagersForDrive auto_id 7 ''D1'' ''Drive one'' [alice] manager_store)"
  have "initialized manager_store"
    by (simp add: manager_store_def empty_store_def)
  moreover have "\<forall>m \<in> set [alice]. md_undefined (managerData 7 ''D1'' ''Drive one'' m) = []"
    by (simp add: managerData_def alice_def js_or_def)
  ultimately have run: "syncManagersForDrive auto_id 7 ''D1'' ''Drive one'' [alice] manager_store = (Inr 1, ?st')"
    by (simp add: syncManagersForDrive_unfold)
  have dist: "distinct (map fst (drive_managers manager_store))"
    by (simp add: manager_store_def)
  have fresh: "\<forall>k < length [alice]. auto_id (next_auto manager_store + k)
                  \<notin> fst ` set (drive_managers manager_store)"
    by (simp add: manager_store_def empty_store_def auto_id_def)
  have inj: "inj_on auto_id {next_auto manager_store ..< next_auto manager_store + length [alice]}"
    by (simp add: manager_store_def empty_store_def)
  have ex: "existingManagers ''D1'' manager_store = [(''a1'', old_manager ''D1'' ''old@example.com'' True)]"
    by (simp add: existingManagers_def manager_store_def old_manager_def)
  have old: "filter (\<lambda>(i, m). \<not> (md_driveId m = ''D1'' \<and> md_synced_by_backend m))
               (drive_managers manager_store)
             = [(''a2'', old_manager ''D1'' ''ui@example.com'' False),
                (''a3'', old_manager ''D2'' ''other@example.com'' True)]"
    by (simp add: manager_store_def old_manager_def)
  have new: "(\<lambda>a. (js_or (m_email a) (m_emailAddress a), m_role a, js_or (m_permissionId a) (m_id a)))
               ` set [alice] = {(Some ''alice@example.com'', ''organizer'', Some ''p1'')}"
    by (simp add: alice_def js_or_def)
  from syncManagersForDrive_replaces_backend_managers[OF run dist fresh inj] run
  show ?thesis
    unfolding ex old new by auto
qed

subsection \<open>The batched loops\<close>

lemma batched_loop_committed:
  assumes "committed b" and "xs \<noteq> []"
  shows "batched_loop mk xs (st, b, c) = (Some (refused (mk (hd xs) st)), st, b, c)"
  using assms by (cases xs) (simp_all add: batch_add_committed)

text \<open>
  What a loop does from an open batch. When a write with an undefined value comes before
  the count reaches the limit, the loop throws there and nothing has been committed.
  Otherwise: below the limit it only queues; when the count reaches the limit at the last
  item it commits once; and when items are left after that commit, the next one is
  refused.
\<close>

lemma batched_loop_open:
  assumes "\<not> committed b" and "c < batchSize"
  shows "batched_loop mk xs (st, b, c) =
           (let ws = map (\<lambda>x. mk x st) xs; k = batchSize - c;
                v = length (takeWhile (\<lambda>w. undefined_keys w = []) ws)
            in if v < length xs \<and> v < k
               then (Some (Undefined_value (hd (undefined_keys (ws ! v)))), st,
                     b\<lparr>pending := pending b @ take v ws\<rparr>, c + v)
               else if length xs < k then (None, st, b\<lparr>pending := pending b @ ws\<rparr>, c + length xs)
               else if length xs = k
               then (None, commit_writes (pending b @ ws) st,
                     b\<lparr>pending := pending b @ ws, committed := True\<rparr>, 0)
               else (Some (refused (mk (xs ! k) (commit_writes (pending b @ take k ws) st))),
                     commit_writes (pending b @ take k ws) st,
                     b\<lparr>pending := pending b @ take k ws, committed := True\<rparr>, 0))"
  using assms
proof (induction xs arbitrary: b c)
  case Nil
  then show ?case by simp
next
  case (Cons x xs)
  show ?case
  proof (cases "undefined_keys (mk x st) = []")
    case False
    have "batched_loop mk (x # xs) (st, b, c)
            = (Some (Undefined_value (hd (undefined_keys (mk x st)))), st, b, c)"
      using False by (simp add: batch_add_undefined)
    moreover have "0 < batchSize - c"
      using Cons.prems(2) by simp
    ultimately show ?thesis
      using False by (simp add: Let_def)
  next
    case valid: True
    let ?b' = "b\<lparr>pending := pending b @ [mk x st]\<rparr>"
    have add: "batch_add (mk x st) b = Inr ?b'"
      using Cons.prems(1) valid by (simp add: batch_add_valid)
    show ?thesis
    proof (cases "c + 1 \<ge> batchSize")
      case True
      with Cons.prems(2) have k: "batchSize - c = 1"
        by simp
      let ?b'' = "?b'\<lparr>committed := True\<rparr>"
      let ?st' = "commit_writes (pending ?b') st"
      have step: "batched_loop mk (x # xs) (st, b, c) = batched_loop mk xs (?st', ?b'', 0)"
        using True by (simp add: add batch_commit_def)
      show ?thesis
      proof (cases xs)
        case Nil
        show ?thesis
          unfolding step k unfolding Nil using valid by (simp add: Let_def)
      next
        case (Cons y ys)
        then have err: "batched_loop mk xs (?st', ?b'', 0)
                          = (Some (refused (mk (hd xs) ?st')), ?st', ?b'', 0)"
          by (intro batched_loop_committed) simp_all
        show ?thesis
          unfolding step k err using Cons valid by (simp add: Let_def)
      qed
    next
      case False
      then have lt: "c + 1 < batchSize"
        by simp
      have step: "batched_loop mk (x # xs) (st, b, c) = batched_loop mk xs (st, ?b', c + 1)"
        using False by (simp add: add)
      have open': "\<not> committed ?b'"
        using Cons.prems(1) by simp
      have k: "batchSize - c = Suc (batchSize - (c + 1))"
        using lt by simp
      show ?thesis
        unfolding step Cons.IH[OF open' lt] k
        using valid by (simp add: Let_def)
    qed
  qed
qed

lemma batched_loop_new:
  "batched_loop mk xs (st, new_batch, 0) =
     (let ws = map (\<lambda>x. mk x st) xs;
          v = length (takeWhile (\<lambda>w. undefined_keys w = []) ws)
      in if v < length xs \<and> v < batchSize
         then (Some (Undefined_value (hd (undefined_keys (ws ! v)))), st,
               \<lparr>pending = take v ws, committed = False\<rparr>, v)
         else if length xs < batchSize then (None, st, \<lparr>pending = ws, committed = False\<rparr>, length xs)
         else if length xs = batchSize
         then (None, commit_writes ws st, \<lparr>pending = ws, committed = True\<rparr>, 0)
         else (Some (refused (mk (xs ! batchSize) (commit_writes (take batchSize ws) st))),
               commit_writes (take batchSize ws) st,
               \<lparr>pending = take batchSize ws, committed = True\<rparr>, 0))"
proof -
  have "\<not> committed new_batch" and "0 < batchSize"
    by (simp_all add: new_batch_def batchSize_def)
  from batched_loop_open[OF this, of mk xs st] show ?thesis
    by (simp add: Let_def new_batch_def)
qed

lemma takeWhile_all: "(\<forall>x \<in> set xs. P x) \<Longrightarrow> takeWhile P xs = xs"
  by (induction xs) simp_all

lemma takeWhile_after_all:
  "(\<forall>x \<in> set xs. P x) \<Longrightarrow> takeWhile P (xs @ ys) = xs @ takeWhile P ys"
  by (induction xs) simp_all

text \<open>
  The outcome of \<^verbatim>\<open>syncSharedDrives\<close>, from its writes: the deletions, then the
  upserts. A drive whose data has an undefined value among the first 500 writes makes the
  call throw with the mirror as it was.
\<close>

lemma syncSharedDrives_result:
  assumes "initialized st"
  shows "syncSharedDrives now drives st =
           (let ws = drive_writes now (shared_drives st) drives;
                res = \<lparr>processed = length drives,
                       deleted = length (drivesToDelete (shared_drives st) drives),
                       total = length drives\<rparr>;
                v = length (takeWhile (\<lambda>w. undefined_keys w = []) ws)
            in if v < min (length ws) batchSize
               then (Inl (Undefined_value (hd (undefined_keys (ws ! v)))), st)
               else if length ws = 0 then (Inr res, st)
               else if length ws \<le> batchSize then (Inr res, commit_writes ws st)
               else (Inl (refused (ws ! batchSize)), commit_writes (take batchSize ws) st))"
proof -
  define dels where "dels = drivesToDelete (shared_drives st) drives"
  define ups where "ups = map (\<lambda>drive. Set_drive (drv_id drive) (driveData now (shared_drives st) drive)) drives"
  define mk2 where "mk2 = (\<lambda>drive (_ :: store). Set_drive (drv_id drive) (driveData now (shared_drives st) drive))"
  define W where "W = drive_writes now (shared_drives st) drives"
  define res where "res = \<lparr>processed = length drives, deleted = length dels, total = length drives\<rparr>"
  define v where "v = length (takeWhile (\<lambda>w. undefined_keys w = []) W)"
  define v2 where "v2 = length (takeWhile (\<lambda>w. undefined_keys w = []) ups)"
  define D where "D = map Delete_drive dels"
  have W: "W = D @ ups"
    by (simp add: W_def drive_writes_def dels_def ups_def D_def)
  have lD: "length D = length dels"
    by (simp add: D_def)
  have lups: "length ups = length drives"
    by (simp add: ups_def)
  have lW: "length W = length dels + length drives"
    by (simp add: W lups lD)
  have ups': "\<And>s. map (\<lambda>x. mk2 x s) drives = ups"
    by (simp add: mk2_def ups_def)
  have mk2: "\<And>i s. i < length drives \<Longrightarrow> mk2 (drives ! i) s = ups ! i"
    by (simp add: mk2_def ups_def)
  have Dvalid: "\<forall>w \<in> set D. undefined_keys w = []"
    by (auto simp: D_def)
  have tD: "takeWhile (\<lambda>w. undefined_keys w = []) D = D"
    using Dvalid by (rule takeWhile_all)
  have v: "v = length dels + v2"
    unfolding v_def v2_def W takeWhile_after_all[OF Dvalid] by (simp add: lD)
  have v2le: "v2 \<le> length drives"
    unfolding v2_def lups[symmetric] by (rule length_takeWhile_le)
  have D1: "map (\<lambda>x. Delete_drive x) dels = D"
    by (simp add: D_def)
  have unfold: "syncSharedDrives now drives st =
      (case batched_loop (\<lambda>driveId _. Delete_drive driveId) dels (st, new_batch, 0) of
         (Some e, st1, _) \<Rightarrow> (Inl e, st1)
       | (None, s1) \<Rightarrow>
           (case batched_loop mk2 drives s1 of
              (Some e, st2, _) \<Rightarrow> (Inl e, st2)
            | (None, s2) \<Rightarrow> (Inr res, final_commit s2)))"
    using assms unfolding syncSharedDrives_def dels_def mk2_def res_def by (simp add: Let_def)
  have goal: "?thesis \<longleftrightarrow>
      syncSharedDrives now drives st
        = (if v < length W \<and> v < batchSize
           then (Inl (Undefined_value (hd (undefined_keys (W ! v)))), st)
           else if length W = 0 then (Inr res, st)
           else if length W \<le> batchSize then (Inr res, commit_writes W st)
           else (Inl (refused (W ! batchSize)), commit_writes (take batchSize W) st))"
    unfolding W_def res_def dels_def v_def by (simp only: Let_def min_less_iff_conj)
  consider (small) "length dels < batchSize" | (full) "length dels = batchSize"
    | (over) "length dels > batchSize"
    by linarith
  then have "syncSharedDrives now drives st
        = (if v < length W \<and> v < batchSize
           then (Inl (Undefined_value (hd (undefined_keys (W ! v)))), st)
           else if length W = 0 then (Inr res, st)
           else if length W \<le> batchSize then (Inr res, commit_writes W st)
           else (Inl (refused (W ! batchSize)), commit_writes (take batchSize W) st))"
  proof cases
    case small
    let ?b1 = "\<lparr>pending = D, committed = False\<rparr>"
    have l1: "batched_loop (\<lambda>driveId _. Delete_drive driveId) dels (st, new_batch, 0)
                = (None, st, ?b1, length dels)"
      using small by (simp add: batched_loop_new Let_def D1 tD lD)
    have open1: "\<not> committed ?b1"
      by simp
    note l2 = batched_loop_open[OF open1 small, of mk2 drives st, unfolded ups' Let_def, folded v2_def]
    consider (u) "v2 < length drives" "v2 < batchSize - length dels"
      | (a) "\<not> (v2 < length drives \<and> v2 < batchSize - length dels)" "length drives < batchSize - length dels"
      | (b) "\<not> (v2 < length drives \<and> v2 < batchSize - length dels)" "length drives = batchSize - length dels"
      | (c) "\<not> (v2 < length drives \<and> v2 < batchSize - length dels)" "length drives > batchSize - length dels"
      by linarith
    then show ?thesis
    proof cases
      case u
      then have "v < length W" "v < batchSize"
        using small by (simp_all add: lW v)
      moreover have "W ! v = ups ! v2"
        unfolding W v by (simp add: nth_append lD)
      ultimately show ?thesis
        unfolding unfold l1 using u by (simp add: l2)
    next
      case a
      then have "length W < batchSize" "\<not> (v < length W \<and> v < batchSize)"
        using small by (auto simp: lW v)
      moreover have "length W = 0 \<longleftrightarrow> length dels + length drives = 0"
        by (simp add: lW)
      ultimately show ?thesis
        unfolding unfold l1 using a
        by (auto simp: l2 final_commit_def batch_commit_def W[symmetric])
    next
      case b
      then have "length W = batchSize" "0 < length W" "\<not> (v < length W \<and> v < batchSize)"
        using small by (auto simp: lW v)
      then show ?thesis
        unfolding unfold l1 using b
        by (simp add: l2 final_commit_def W[symmetric])
    next
      case c
      then have "length W > batchSize" "\<not> (v < length W \<and> v < batchSize)"
        using small v2le by (auto simp: lW v)
      then have "length W > batchSize" "W \<noteq> []" "\<not> (v < length W \<and> v < batchSize)"
        by auto
      moreover have "take batchSize W = D @ take (batchSize - length dels) ups"
        using small by (simp add: W lD)
      moreover have "W ! batchSize = ups ! (batchSize - length dels)"
        using small by (simp add: W nth_append lD)
      moreover have "mk2 (drives ! (batchSize - length dels))
                       (commit_writes (D @ take (batchSize - length dels) ups) st)
                     = ups ! (batchSize - length dels)"
        using c(2) by (intro mk2) simp
      ultimately show ?thesis
        unfolding unfold l1 using c
        by (auto simp: l2)
    qed
  next
    case full
    let ?b1 = "\<lparr>pending = D, committed = True\<rparr>"
    let ?st1 = "commit_writes D st"
    have l1: "batched_loop (\<lambda>driveId _. Delete_drive driveId) dels (st, new_batch, 0)
                = (None, ?st1, ?b1, 0)"
      using full by (simp add: batched_loop_new Let_def D1 tD lD)
    have pos: "0 < batchSize"
      by (simp add: batchSize_def)
    have nv: "(v < length W \<and> v < batchSize) = False"
      using full by (simp add: v)
    show ?thesis
    proof (cases drives)
      case Nil
      then have "W = D" "length W = batchSize"
        using full by (simp_all add: W ups_def lD)
      moreover have "\<not> v < batchSize"
        using full by (simp add: v)
      ultimately show ?thesis
        unfolding unfold l1 using Nil pos
        by (simp add: final_commit_def)
    next
      case (Cons d ds)
      then have l2: "batched_loop mk2 drives (?st1, ?b1, 0)
                       = (Some (refused (mk2 (hd drives) ?st1)), ?st1, ?b1, 0)"
        by (intro batched_loop_committed) simp_all
      have "length W > batchSize"
        using full Cons by (simp add: lW)
      then have "length W > batchSize" "W \<noteq> []"
        by auto
      moreover have "take batchSize W = D"
        using full by (simp add: W lD)
      moreover have "W ! batchSize = mk2 (hd drives) ?st1"
        using full Cons by (simp add: W nth_append lD ups_def mk2_def)
      ultimately show ?thesis
        unfolding unfold l1 by (simp add: l2 nv)
    qed
  next
    case over
    have r: "refused (Delete_drive j) = Batch_committed" for j
      by (simp add: refused_def)
    have l1: "batched_loop (\<lambda>driveId _. Delete_drive driveId) dels (st, new_batch, 0)
                = (Some Batch_committed, commit_writes (take batchSize D) st,
                   \<lparr>pending = take batchSize D, committed = True\<rparr>, 0)"
      using over by (simp add: batched_loop_new Let_def D1 tD lD r)
    have "length W > batchSize"
      using over by (simp add: lW)
    then have "length W > batchSize" "W \<noteq> []"
      by auto
    moreover have "take batchSize W = take batchSize D"
      using over by (simp add: W lD)
    moreover have "W ! batchSize = Delete_drive (dels ! batchSize)"
      using over by (simp add: W nth_append lD D_def)
    moreover have "\<not> (v < length W \<and> v < batchSize)"
      using over by (simp add: v)
    ultimately show ?thesis
      unfolding unfold l1 by (simp add: r)
  qed
  then show ?thesis
    unfolding goal .
qed

lemma syncFoldersForDrive_result:
  assumes "initialized st"
  shows "syncFoldersForDrive now driveId fs st =
           (let ws = folder_writes now driveId st fs;
                v = length (takeWhile (\<lambda>w. undefined_keys w = []) ws);
                st' = commit_writes (take batchSize ws) st
            in if v < min (length fs) batchSize
               then (Inl (Undefined_value (hd (undefined_keys (ws ! v)))), st)
               else if length fs = 0 then (Inr 0, st)
               else if length fs \<le> batchSize then (Inr (length fs), commit_writes ws st)
               else (Inl (refused (hd (folder_writes now driveId st' [fs ! batchSize]))), st'))"
proof -
  define mk where "mk = (\<lambda>folder (cur :: store). Set_folder (f_id folder)
                            (folderData now driveId (map_of (folder_docs cur) (f_id folder)) folder))"
  define W where "W = folder_writes now driveId st fs"
  define v where "v = length (takeWhile (\<lambda>w. undefined_keys w = []) W)"
  have W: "map (\<lambda>x. mk x st) fs = W"
    by (simp add: mk_def W_def folder_writes_def)
  have lW: "length W = length fs"
    by (simp add: W_def folder_writes_def)
  have next_one: "\<And>s f. hd (folder_writes now driveId s [f]) = mk f s"
    by (simp add: folder_writes_def mk_def)
  have unfold: "syncFoldersForDrive now driveId fs st =
      (case batched_loop mk fs (st, new_batch, 0) of
         (Some e, st1, _) \<Rightarrow> (Inl e, st1)
       | (None, s1) \<Rightarrow> (Inr (length fs), final_commit s1))"
    using assms unfolding syncFoldersForDrive_def mk_def by simp
  have loop: "batched_loop mk fs (st, new_batch, 0) =
      (if v < length fs \<and> v < batchSize
       then (Some (Undefined_value (hd (undefined_keys (W ! v)))), st,
             \<lparr>pending = take v W, committed = False\<rparr>, v)
       else if length fs < batchSize then (None, st, \<lparr>pending = W, committed = False\<rparr>, length fs)
       else if length fs = batchSize
       then (None, commit_writes W st, \<lparr>pending = W, committed = True\<rparr>, 0)
       else (Some (refused (mk (fs ! batchSize) (commit_writes (take batchSize W) st))),
             commit_writes (take batchSize W) st,
             \<lparr>pending = take batchSize W, committed = True\<rparr>, 0))"
    unfolding batched_loop_new W v_def by (simp only: Let_def)
  have pos: "0 < batchSize"
    by (simp add: batchSize_def)
  have "syncFoldersForDrive now driveId fs st =
          (if v < length fs \<and> v < batchSize
           then (Inl (Undefined_value (hd (undefined_keys (W ! v)))), st)
           else if length fs = 0 then (Inr 0, st)
           else if length fs \<le> batchSize then (Inr (length fs), commit_writes W st)
           else (Inl (refused (mk (fs ! batchSize) (commit_writes (take batchSize W) st))),
                 commit_writes (take batchSize W) st))"
    unfolding unfold loop using pos
    by (auto simp: final_commit_def batch_commit_def W_def folder_writes_def)
  then show ?thesis
    unfolding W_def v_def next_one by (simp only: Let_def min_less_iff_conj)
qed

subsection \<open>Data without undefined values\<close>

lemma driveData_undefined:
  "dd_undefined (driveData now existingDrives drive) =
     (case map_of existingDrives (drv_id drive) of
        None \<Rightarrow> []
      | Some e \<Rightarrow> if dd_created_by_frontend e = Some True \<and> dd_created_at e = None
                  then [''created_at''] else [])"
  by (simp add: driveData_def Let_def split: option.splits)

lemma folderData_undefined:
  "fd_undefined (folderData now driveId existingDoc folder) =
     (if f_parents folder = Some [] then [''parent_id''] else [])
     @ (case existingDoc of
          None \<Rightarrow> []
        | Some e \<Rightarrow> if fd_created_by_frontend e = Some True \<and> fd_created_at e = None
                    then [''created_at''] else [])"
  by (simp add: folderData_def Let_def split: option.splits)

lemma managerData_undefined:
  "md_undefined (managerData now driveId driveName manager) = [] \<longleftrightarrow>
     js_or (m_email manager) (m_emailAddress manager) \<noteq> None
     \<and> js_or (m_permissionId manager) (m_id manager) \<noteq> None"
  by (simp add: managerData_def)

lemma driveData_valid:
  assumes "frontend_drives_dated st"
  shows "dd_undefined (driveData now (shared_drives st) drive) = []"
proof (cases "map_of (shared_drives st) (drv_id drive)")
  case None
  then show ?thesis
    by (simp add: driveData_undefined)
next
  case (Some e)
  then have "(drv_id drive, e) \<in> set (shared_drives st)"
    by (rule map_of_SomeD)
  with assms have "dd_created_by_frontend e = Some True \<longrightarrow> dd_created_at e \<noteq> None"
    by (auto simp: frontend_drives_dated_def)
  with Some show ?thesis
    by (auto simp: driveData_undefined)
qed

lemma folderData_valid:
  assumes "frontend_folders_dated st" and "f_parents folder \<noteq> Some []"
  shows "fd_undefined (folderData now driveId (map_of (folder_docs st) (f_id folder)) folder) = []"
proof (cases "map_of (folder_docs st) (f_id folder)")
  case None
  then show ?thesis
    using assms(2) by (simp add: folderData_undefined)
next
  case (Some e)
  then have "(f_id folder, e) \<in> set (folder_docs st)"
    by (rule map_of_SomeD)
  with assms(1) have "fd_created_by_frontend e = Some True \<longrightarrow> fd_created_at e \<noteq> None"
    by (auto simp: frontend_folders_dated_def)
  with Some assms(2) show ?thesis
    by (auto simp: folderData_undefined)
qed

lemma drive_writes_valid:
  "(\<forall>w \<in> set (drive_writes now existingDrives drives). undefined_keys w = [])
     \<longleftrightarrow> (\<forall>d \<in> set drives. dd_undefined (driveData now existingDrives d) = [])"
  by (force simp: drive_writes_def)

lemma folder_writes_valid:
  "(\<forall>w \<in> set (folder_writes now driveId st fs). undefined_keys w = [])
     \<longleftrightarrow> (\<forall>f \<in> set fs.
            fd_undefined (folderData now driveId (map_of (folder_docs st) (f_id f)) f) = [])"
  by (force simp: folder_writes_def)

lemma valid_prefix: "n \<le> length (takeWhile P xs) \<Longrightarrow> \<forall>x \<in> set (take n xs). P x"
proof
  fix x assume n: "n \<le> length (takeWhile P xs)" and "x \<in> set (take n xs)"
  then obtain i where i: "i < n" "i < length xs" "x = xs ! i"
    by (auto simp: in_set_conv_nth)
  with n have "i < length (takeWhile P xs)"
    by simp
  then have "P (takeWhile P xs ! i)"
    by (meson nth_mem set_takeWhileD)
  moreover have "takeWhile P xs ! i = xs ! i"
    using \<open>i < length (takeWhile P xs)\<close> by (rule takeWhile_nth)
  ultimately show "P x"
    using i by simp
qed

text \<open>With data that have all their values, the calls go as far as the batch lets them.\<close>

lemma syncSharedDrives_result_valid:
  assumes "initialized st"
    and "\<forall>d \<in> set drives. dd_undefined (driveData now (shared_drives st) d) = []"
  shows "syncSharedDrives now drives st =
           (let ws = drive_writes now (shared_drives st) drives;
                res = \<lparr>processed = length drives,
                       deleted = length (drivesToDelete (shared_drives st) drives),
                       total = length drives\<rparr>
            in if length ws = 0 then (Inr res, st)
               else if length ws \<le> batchSize then (Inr res, commit_writes ws st)
               else (Inl Batch_committed, commit_writes (take batchSize ws) st))"
proof -
  let ?ws = "drive_writes now (shared_drives st) drives"
  have valid: "\<forall>w \<in> set ?ws. undefined_keys w = []"
    using assms(2) by (simp only: drive_writes_valid)
  then have all: "takeWhile (\<lambda>w. undefined_keys w = []) ?ws = ?ws"
    by (rule takeWhile_all)
  have "refused (?ws ! batchSize) = Batch_committed" if "batchSize < length ?ws"
    using that valid by (simp add: refused_def)
  then show ?thesis
    unfolding syncSharedDrives_result[OF assms(1)] Let_def all by auto
qed

lemma update_entries: "set (AList.update k v al) \<subseteq> insert (k, v) (set al)"
  by (induction al) auto

lemma dated_apply_write:
  assumes "frontend_folders_dated cur"
    and "\<And>i d. w = Set_folder i d \<Longrightarrow> fd_created_by_frontend d = Some True \<longrightarrow> fd_created_at d \<noteq> None"
  shows "frontend_folders_dated (apply_write w cur)"
proof (cases w)
  case (Set_folder i d)
  let ?new = "merge_folder (map_of (folder_docs cur) i) d"
  have new: "fd_created_by_frontend ?new = Some True \<longrightarrow> fd_created_at ?new \<noteq> None"
  proof (cases "map_of (folder_docs cur) i")
    case None
    then show ?thesis
      using assms(2)[OF Set_folder] by (simp add: merge_folder_def)
  next
    case (Some old)
    then have "(i, old) \<in> set (folder_docs cur)"
      by (rule map_of_SomeD)
    with assms(1) have "fd_created_by_frontend old = Some True \<longrightarrow> fd_created_at old \<noteq> None"
      by (auto simp: frontend_folders_dated_def)
    with Some assms(2)[OF Set_folder] show ?thesis
      by (auto simp: merge_folder_def split: option.splits)
  qed
  have "set (AList.update i ?new (folder_docs cur)) \<subseteq> insert (i, ?new) (set (folder_docs cur))"
    by (rule update_entries)
  with new assms(1) show ?thesis
    unfolding Set_folder frontend_folders_dated_def by auto
qed (use assms(1) in \<open>simp_all add: frontend_folders_dated_def\<close>)

lemma dated_apply_writes:
  assumes "frontend_folders_dated cur"
    and "\<And>i d. Set_folder i d \<in> set ws \<Longrightarrow> fd_created_by_frontend d = Some True \<longrightarrow> fd_created_at d \<noteq> None"
  shows "frontend_folders_dated (apply_writes ws cur)"
  using assms
proof (induction ws arbitrary: cur)
  case Nil
  then show ?case by simp
next
  case (Cons w ws)
  have "frontend_folders_dated (apply_write w cur)"
    using Cons.prems by (intro dated_apply_write) auto
  then have "frontend_folders_dated (apply_writes ws (apply_write w cur))"
    by (rule Cons.IH) (use Cons.prems(2) in auto)
  then show ?case
    by simp
qed

lemma dated_commit_writes [simp]:
  "frontend_folders_dated (commit_writes ws st) = frontend_folders_dated (apply_writes ws st)"
  by (simp add: commit_writes_def frontend_folders_dated_def)

lemma folderData_dated:
  assumes "fd_undefined (folderData now driveId existingDoc folder) = []"
  shows "fd_created_by_frontend (folderData now driveId existingDoc folder) = Some True
           \<longrightarrow> fd_created_at (folderData now driveId existingDoc folder) \<noteq> None"
  using assms by (auto simp: folderData_def Let_def split: option.splits if_splits)

lemma dated_folder_writes:
  assumes "frontend_folders_dated st"
    and "\<forall>w \<in> set ws. undefined_keys w = []"
    and "set ws \<subseteq> set (folder_writes now driveId cur fs)"
  shows "frontend_folders_dated (apply_writes ws st)"
proof (rule dated_apply_writes[OF assms(1)])
  fix i d assume in_ws: "Set_folder i d \<in> set ws"
  with assms(3) obtain f where f: "d = folderData now driveId (map_of (folder_docs cur) (f_id f)) f"
    by (auto simp: folder_writes_def)
  from in_ws assms(2) have "fd_undefined d = []"
    by force
  then show "fd_created_by_frontend d = Some True \<longrightarrow> fd_created_at d \<noteq> None"
    unfolding f by (rule folderData_dated)
qed

text \<open>\<^verbatim>\<open>syncFoldersForDrive\<close> keeps the mirror of the folders well-formed, whatever its outcome.\<close>

lemma syncFoldersForDrive_dated:
  assumes "frontend_folders_dated st"
  shows "frontend_folders_dated (snd (syncFoldersForDrive now driveId fs st))"
proof (cases "initialized st")
  case False
  then show ?thesis
    using assms by (simp add: syncFoldersForDrive_def)
next
  case True
  let ?ws = "folder_writes now driveId st fs"
  let ?v = "length (takeWhile (\<lambda>w. undefined_keys w = []) ?ws)"
  have lw: "length ?ws = length fs"
    by (simp add: folder_writes_def)
  have whole: "frontend_folders_dated (apply_writes ?ws st)" if "\<not> ?v < min (length fs) batchSize"
    "length fs \<le> batchSize"
  proof -
    from that have "length ?ws \<le> ?v"
      by (auto simp: lw)
    then have "\<forall>w \<in> set (take (length ?ws) ?ws). undefined_keys w = []"
      by (rule valid_prefix)
    then have "\<forall>w \<in> set ?ws. undefined_keys w = []"
      by simp
    from dated_folder_writes[OF assms this, of now driveId st fs] show ?thesis
      by simp
  qed
  have part: "frontend_folders_dated (apply_writes (take batchSize ?ws) st)"
    if "\<not> ?v < min (length fs) batchSize" "\<not> length fs \<le> batchSize"
  proof -
    from that have "batchSize \<le> ?v"
      by auto
    then have "\<forall>w \<in> set (take batchSize ?ws). undefined_keys w = []"
      by (rule valid_prefix)
    from dated_folder_writes[OF assms this, of now driveId st fs] show ?thesis
      by (simp add: set_take_subset)
  qed
  show ?thesis
    unfolding syncFoldersForDrive_result[OF True] Let_def
    using assms whole part by (simp del: min_less_iff_conj)
qed

lemma syncFoldersForDrive_result_valid:
  assumes "initialized st" and "frontend_folders_dated st"
    and "\<forall>f \<in> set fs. f_parents f \<noteq> Some []"
  shows "syncFoldersForDrive now driveId fs st =
           (let ws = folder_writes now driveId st fs
            in if length fs = 0 then (Inr 0, st)
               else if length fs \<le> batchSize then (Inr (length fs), commit_writes ws st)
               else (Inl Batch_committed, commit_writes (take batchSize ws) st))"
proof -
  let ?ws = "folder_writes now driveId st fs"
  let ?st' = "commit_writes (take batchSize ?ws) st"
  have valid: "\<forall>w \<in> set ?ws. undefined_keys w = []"
    unfolding folder_writes_valid using assms(2,3) by (simp add: folderData_valid)
  then have all: "takeWhile (\<lambda>w. undefined_keys w = []) ?ws = ?ws"
    by (rule takeWhile_all)
  have lw: "length ?ws = length fs"
    by (simp add: folder_writes_def)
  have "\<forall>w \<in> set (take batchSize ?ws). undefined_keys w = []"
    using valid by (auto dest: in_set_takeD)
  from dated_folder_writes[OF assms(2) this, of now driveId st fs]
  have dated': "frontend_folders_dated ?st'"
    by (simp add: set_take_subset)
  have "refused (hd (folder_writes now driveId ?st' [fs ! batchSize])) = Batch_committed"
    if "batchSize < length fs"
  proof -
    from that have "fs ! batchSize \<in> set fs"
      by simp
    with assms(3) have "f_parents (fs ! batchSize) \<noteq> Some []"
      by blast
    with dated' show ?thesis
      by (simp add: folder_writes_def refused_def folderData_valid)
  qed
  then show ?thesis
    unfolding syncFoldersForDrive_result[OF assms(1)] Let_def all lw by auto
qed

lemma inj_auto_id: "inj_on auto_id A"
proof (rule inj_onI)
  fix x y assume "auto_id x = auto_id y"
  then have "length (auto_id x) = length (auto_id y)" by simp
  then show "x = y" by (simp add: auto_id_def)
qed

text \<open>
  C6. Sequences of more than 500 writes should go out as several batches of at most 500.
  A replacement of the managers of a drive by 501 managers goes out as one batch of 501
  writes, since \<^verbatim>\<open>syncManagersForDrive\<close> has no batching. An upsert of 501 drives,
  and one of 501 folders, sends one batch of 500 writes and then throws: the loops commit
  the batch at 500 and go on queueing on the same, now committed, batch object.
\<close>

theorem batches_over_the_limit:
  "map length (commits (snd (syncManagersForDrive auto_id 7 ''D1'' ''Drive one''
                               (replicate 501 alice) empty_store))) = [501]
   \<and> fst (syncSharedDrives 7 (many_drives 501) empty_store) = Inl Batch_committed
   \<and> map length (commits (snd (syncSharedDrives 7 (many_drives 501) empty_store))) = [500]
   \<and> fst (syncFoldersForDrive 7 ''D1'' (many_folders ''D1'' 501) empty_store) = Inl Batch_committed
   \<and> map length (commits (snd (syncFoldersForDrive 7 ''D1'' (many_folders ''D1'' 501) empty_store)))
       = [500]"
proof -
  have init: "initialized empty_store"
    by (simp add: empty_store_def)
  have fresh: "\<forall>k < length (replicate 501 alice).
                 auto_id (next_auto empty_store + k) \<notin> fst ` set (drive_managers empty_store)"
    by (simp add: empty_store_def)
  have none: "existingManagers ''D1'' empty_store = []"
    by (simp add: existingManagers_def empty_store_def)
  have validm: "\<forall>m \<in> set (replicate 501 alice). md_undefined (managerData 7 ''D1'' ''Drive one'' m) = []"
    by (simp add: managerData_undefined alice_def js_or_def)
  have managers: "map length (commits (snd (syncManagersForDrive auto_id 7 ''D1'' ''Drive one''
                               (replicate 501 alice) empty_store))) = [501]"
    unfolding syncManagersForDrive_store[OF init validm fresh inj_auto_id] none
    by (simp add: empty_store_def)
  have validd: "\<forall>d \<in> set (many_drives 501). dd_undefined (driveData 7 (shared_drives empty_store) d) = []"
    by (simp add: driveData_undefined empty_store_def)
  have dated: "frontend_folders_dated empty_store"
    by (simp add: frontend_folders_dated_def empty_store_def)
  have parents: "\<forall>f \<in> set (many_folders ''D1'' 501). f_parents f \<noteq> Some []"
    by (auto simp: many_folders_def plain_folder_def)
  have ld: "length (drive_writes 7 (shared_drives empty_store) (many_drives 501)) = 501"
    by (simp add: drive_writes_def drivesToDelete_def many_drives_def empty_store_def)
  have drives: "syncSharedDrives 7 (many_drives 501) empty_store =
      (Inl Batch_committed,
       commit_writes (take batchSize (drive_writes 7 (shared_drives empty_store) (many_drives 501)))
         empty_store)"
    unfolding syncSharedDrives_result_valid[OF init validd] Let_def ld by (simp add: batchSize_def)
  have lf: "length (many_folders ''D1'' 501) = 501"
    by (simp add: many_folders_def)
  have folders: "syncFoldersForDrive 7 ''D1'' (many_folders ''D1'' 501) empty_store =
      (Inl Batch_committed,
       commit_writes (take batchSize (folder_writes 7 ''D1'' empty_store (many_folders ''D1'' 501)))
         empty_store)"
    unfolding syncFoldersForDrive_result_valid[OF init dated parents] Let_def lf by (simp add: batchSize_def)
  have lfw: "length (folder_writes 7 ''D1'' empty_store (many_folders ''D1'' 501)) = 501"
    by (simp add: folder_writes_def lf)
  have ce: "commits empty_store = []"
    by (simp add: empty_store_def)
  show ?thesis
    unfolding drives folders
    by (simp add: managers commit_writes_def ld lfw batchSize_def ce)
qed

subsection \<open>Records created by the frontend\<close>

lemma driveData_frontend:
  assumes "map_of existingDrives (drv_id drive) = Some old"
    and "dd_created_by_frontend old = Some True"
  shows "dd_created_by_frontend (driveData now existingDrives drive) = Some True
       \<and> dd_created_at (driveData now existingDrives drive) = dd_created_at old"
  using assms by (simp add: driveData_def Let_def)

lemma folderData_frontend:
  assumes "fd_created_by_frontend old = Some True"
  shows "fd_created_by_frontend (folderData now driveId (Some old) folder) = Some True
       \<and> fd_created_at (folderData now driveId (Some old) folder) = fd_created_at old"
  using assms by (simp add: folderData_def Let_def)

text \<open>
  A write keeps the frontend fields of the records of \<open>existing\<close> when it deletes only
  ids of \<open>dels\<close> and when its data for a frontend-created record carries the flag and the
  stored \<open>created_at\<close>.
\<close>

lemma apply_write_keeps_drive:
  assumes inv: "\<exists>new. map_of (shared_drives cur) i = Some new
                  \<and> dd_created_by_frontend new = Some True \<and> dd_created_at new = c"
    and del: "\<And>j. w = Delete_drive j \<Longrightarrow> j \<noteq> i"
    and upd: "\<And>d. w = Set_drive i d \<Longrightarrow> dd_created_by_frontend d = Some True \<and> dd_created_at d = c"
  shows "\<exists>new. map_of (shared_drives (apply_write w cur)) i = Some new
           \<and> dd_created_by_frontend new = Some True \<and> dd_created_at new = c"
proof (cases w)
  case (Delete_drive j)
  with del have "j \<noteq> i" by simp
  with inv Delete_drive show ?thesis
    by (simp add: delete_conv')
next
  case (Set_drive j d)
  show ?thesis
  proof (cases "j = i")
    case True
    with upd Set_drive have "dd_created_by_frontend d = Some True" "dd_created_at d = c"
      by simp_all
    with inv True Set_drive show ?thesis
      by (auto simp: update_conv' merge_drive_def split: option.splits)
  next
    case False
    with inv Set_drive show ?thesis
      by (simp add: update_conv')
  qed
qed (use inv in simp_all)

lemma apply_writes_keeps_drive:
  assumes "\<exists>new. map_of (shared_drives cur) i = Some new
                  \<and> dd_created_by_frontend new = Some True \<and> dd_created_at new = c"
    and "\<And>j. Delete_drive j \<in> set ws \<Longrightarrow> j \<noteq> i"
    and "\<And>d. Set_drive i d \<in> set ws \<Longrightarrow> dd_created_by_frontend d = Some True \<and> dd_created_at d = c"
  shows "\<exists>new. map_of (shared_drives (apply_writes ws cur)) i = Some new
           \<and> dd_created_by_frontend new = Some True \<and> dd_created_at new = c"
  using assms
proof (induction ws arbitrary: cur)
  case Nil
  then show ?case by simp
next
  case (Cons w ws)
  have "\<exists>new. map_of (shared_drives (apply_write w cur)) i = Some new
           \<and> dd_created_by_frontend new = Some True \<and> dd_created_at new = c"
    using Cons.prems by (intro apply_write_keeps_drive) auto
  then show ?case
    using Cons.prems(2,3) by (simp add: Cons.IH)
qed

lemma apply_write_keeps_folder:
  assumes inv: "\<exists>new. map_of (folder_docs cur) i = Some new
                  \<and> fd_created_by_frontend new = Some True \<and> fd_created_at new = c"
    and upd: "\<And>d. w = Set_folder i d \<Longrightarrow> fd_created_by_frontend d = Some True \<and> fd_created_at d = c"
  shows "\<exists>new. map_of (folder_docs (apply_write w cur)) i = Some new
           \<and> fd_created_by_frontend new = Some True \<and> fd_created_at new = c"
proof (cases w)
  case (Set_folder j d)
  show ?thesis
  proof (cases "j = i")
    case True
    with upd Set_folder have "fd_created_by_frontend d = Some True" "fd_created_at d = c"
      by simp_all
    with inv True Set_folder show ?thesis
      by (auto simp: update_conv' merge_folder_def split: option.splits)
  next
    case False
    with inv Set_folder show ?thesis
      by (simp add: update_conv')
  qed
qed (use inv in simp_all)

lemma apply_writes_keeps_folder:
  assumes "\<exists>new. map_of (folder_docs cur) i = Some new
                  \<and> fd_created_by_frontend new = Some True \<and> fd_created_at new = c"
    and "\<And>d. Set_folder i d \<in> set ws \<Longrightarrow> fd_created_by_frontend d = Some True \<and> fd_created_at d = c"
  shows "\<exists>new. map_of (folder_docs (apply_writes ws cur)) i = Some new
           \<and> fd_created_by_frontend new = Some True \<and> fd_created_at new = c"
  using assms
proof (induction ws arbitrary: cur)
  case Nil
  then show ?case by simp
next
  case (Cons w ws)
  have "\<exists>new. map_of (folder_docs (apply_write w cur)) i = Some new
           \<and> fd_created_by_frontend new = Some True \<and> fd_created_at new = c"
    using Cons.prems by (intro apply_write_keeps_folder) auto
  then show ?case
    using Cons.prems(2) by (simp add: Cons.IH)
qed

text \<open>Whatever the outcome of a call, its store is the old one or the old one after a prefix of the writes.\<close>

lemma syncSharedDrives_store:
  "\<exists>k. shared_drives (snd (syncSharedDrives now drives st))
         = shared_drives (apply_writes (take k (drive_writes now (shared_drives st) drives)) st)"
proof (cases "initialized st")
  case False
  then have "snd (syncSharedDrives now drives st) = apply_writes (take 0 (drive_writes now (shared_drives st) drives)) st"
    by (simp add: syncSharedDrives_def)
  then show ?thesis by metis
next
  case True
  let ?ws = "drive_writes now (shared_drives st) drives"
  let ?v = "length (takeWhile (\<lambda>w. undefined_keys w = []) ?ws)"
  consider "?v < min (length ?ws) batchSize \<or> length ?ws = 0"
    | "\<not> ?v < min (length ?ws) batchSize" "length ?ws \<noteq> 0" "length ?ws \<le> batchSize"
    | "\<not> ?v < min (length ?ws) batchSize" "length ?ws > batchSize"
    by linarith
  then show ?thesis
  proof cases
    case 1
    then have "snd (syncSharedDrives now drives st) = apply_writes (take 0 ?ws) st"
      by (auto simp: syncSharedDrives_result[OF True] Let_def)
    then show ?thesis by metis
  next
    case 2
    then have "shared_drives (snd (syncSharedDrives now drives st))
                 = shared_drives (apply_writes (take (length ?ws) ?ws) st)"
      by (simp add: syncSharedDrives_result[OF True] Let_def commit_writes_def)
    then show ?thesis by metis
  next
    case 3
    then have "?ws \<noteq> []"
      by auto
    with 3 have "shared_drives (snd (syncSharedDrives now drives st))
                 = shared_drives (apply_writes (take batchSize ?ws) st)"
      by (simp add: syncSharedDrives_result[OF True] Let_def commit_writes_def)
    then show ?thesis by metis
  qed
qed

lemma syncFoldersForDrive_store:
  "\<exists>k. folder_docs (snd (syncFoldersForDrive now driveId fs st))
         = folder_docs (apply_writes (take k (folder_writes now driveId st fs)) st)"
proof (cases "initialized st")
  case False
  then have "snd (syncFoldersForDrive now driveId fs st)
               = apply_writes (take 0 (folder_writes now driveId st fs)) st"
    by (simp add: syncFoldersForDrive_def)
  then show ?thesis by metis
next
  case True
  let ?ws = "folder_writes now driveId st fs"
  let ?v = "length (takeWhile (\<lambda>w. undefined_keys w = []) ?ws)"
  consider "?v < min (length fs) batchSize \<or> length fs = 0"
    | "\<not> ?v < min (length fs) batchSize" "length fs \<noteq> 0" "length fs \<le> batchSize"
    | "\<not> ?v < min (length fs) batchSize" "length fs > batchSize"
    by linarith
  then show ?thesis
  proof cases
    case 1
    then have "snd (syncFoldersForDrive now driveId fs st) = apply_writes (take 0 ?ws) st"
      by (auto simp: syncFoldersForDrive_result[OF True] Let_def)
    then show ?thesis by metis
  next
    case 2
    then have "folder_docs (snd (syncFoldersForDrive now driveId fs st))
                 = folder_docs (apply_writes (take (length ?ws) ?ws) st)"
      by (simp add: syncFoldersForDrive_result[OF True] Let_def commit_writes_def)
    then show ?thesis by metis
  next
    case 3
    then have "fs \<noteq> []"
      by auto
    with 3 have "folder_docs (snd (syncFoldersForDrive now driveId fs st))
                 = folder_docs (apply_writes (take batchSize ?ws) st)"
      by (simp add: syncFoldersForDrive_result[OF True] Let_def commit_writes_def)
    then show ?thesis by metis
  qed
qed

text \<open>
  C3. A drive or folder record of the mirror that carries \<open>created_by_frontend = true\<close>:
  the data that a sync writes for its id carry \<open>created_by_frontend = true\<close> and the
  stored \<open>created_at\<close>; and after \<^verbatim>\<open>syncSharedDrives\<close> with that id in the listing,
  and after \<^verbatim>\<open>syncFoldersForDrive\<close>, whatever their outcome, the record is there with
  the flag and with \<open>created_at\<close> unchanged.
\<close>

theorem frontend_records_survive_sync:
  "(map_of (shared_drives st) (drv_id drive) = Some old \<and> dd_created_by_frontend old = Some True
      \<longrightarrow> dd_created_by_frontend (driveData now (shared_drives st) drive) = Some True
          \<and> dd_created_at (driveData now (shared_drives st) drive) = dd_created_at old)
   \<and> (map_of (shared_drives st) (drv_id drive) = Some old \<and> dd_created_by_frontend old = Some True
        \<and> drive \<in> set drives
      \<longrightarrow> (\<exists>new. map_of (shared_drives (snd (syncSharedDrives now drives st))) (drv_id drive) = Some new
                 \<and> dd_created_by_frontend new = Some True \<and> dd_created_at new = dd_created_at old))
   \<and> (map_of (folder_docs st) (f_id folder) = Some oldf \<and> fd_created_by_frontend oldf = Some True
      \<longrightarrow> fd_created_by_frontend (folderData now driveId (map_of (folder_docs st) (f_id folder)) folder)
            = Some True
          \<and> fd_created_at (folderData now driveId (map_of (folder_docs st) (f_id folder)) folder)
            = fd_created_at oldf)
   \<and> (map_of (folder_docs st) (f_id folder) = Some oldf \<and> fd_created_by_frontend oldf = Some True
      \<longrightarrow> (\<exists>new. map_of (folder_docs (snd (syncFoldersForDrive now driveId fs st))) (f_id folder) = Some new
                 \<and> fd_created_by_frontend new = Some True \<and> fd_created_at new = fd_created_at oldf))"
proof (intro conjI impI)
  assume a: "map_of (shared_drives st) (drv_id drive) = Some old \<and> dd_created_by_frontend old = Some True"
  then show "dd_created_by_frontend (driveData now (shared_drives st) drive) = Some True"
    and "dd_created_at (driveData now (shared_drives st) drive) = dd_created_at old"
    using driveData_frontend[of "shared_drives st" drive old now] by simp_all
next
  assume a: "map_of (shared_drives st) (drv_id drive) = Some old \<and> dd_created_by_frontend old = Some True
               \<and> drive \<in> set drives"
  let ?i = "drv_id drive"
  obtain k where k: "shared_drives (snd (syncSharedDrives now drives st))
         = shared_drives (apply_writes (take k (drive_writes now (shared_drives st) drives)) st)"
    using syncSharedDrives_store by blast
  let ?ws = "take k (drive_writes now (shared_drives st) drives)"
  have start: "\<exists>new. map_of (shared_drives st) ?i = Some new
                  \<and> dd_created_by_frontend new = Some True \<and> dd_created_at new = dd_created_at old"
    using a by simp
  have nodel: "j \<noteq> ?i" if "Delete_drive j \<in> set ?ws" for j
  proof -
    from that have "Delete_drive j \<in> set (drive_writes now (shared_drives st) drives)"
      by (rule in_set_takeD)
    then have "j \<in> set (drivesToDelete (shared_drives st) drives)"
      by (auto simp: drive_writes_def)
    then have "j \<notin> drv_id ` set drives"
      by (simp add: drivesToDelete_def)
    with a show ?thesis by auto
  qed
  have upd: "dd_created_by_frontend d = Some True \<and> dd_created_at d = dd_created_at old"
    if "Set_drive ?i d \<in> set ?ws" for d
  proof -
    from that have "Set_drive ?i d \<in> set (drive_writes now (shared_drives st) drives)"
      by (rule in_set_takeD)
    then obtain dr where dr: "dr \<in> set drives" "drv_id dr = ?i" "d = driveData now (shared_drives st) dr"
      by (auto simp: drive_writes_def)
    with a driveData_frontend[of "shared_drives st" dr old now] show ?thesis
      by simp
  qed
  from apply_writes_keeps_drive[OF start nodel upd] k
  show "\<exists>new. map_of (shared_drives (snd (syncSharedDrives now drives st))) ?i = Some new
           \<and> dd_created_by_frontend new = Some True \<and> dd_created_at new = dd_created_at old"
    by simp
next
  assume a: "map_of (folder_docs st) (f_id folder) = Some oldf \<and> fd_created_by_frontend oldf = Some True"
  then show "fd_created_by_frontend (folderData now driveId (map_of (folder_docs st) (f_id folder)) folder)
              = Some True"
    and "fd_created_at (folderData now driveId (map_of (folder_docs st) (f_id folder)) folder)
              = fd_created_at oldf"
    using folderData_frontend[of oldf now driveId folder] by simp_all
next
  assume a: "map_of (folder_docs st) (f_id folder) = Some oldf \<and> fd_created_by_frontend oldf = Some True"
  let ?i = "f_id folder"
  obtain k where k: "folder_docs (snd (syncFoldersForDrive now driveId fs st))
         = folder_docs (apply_writes (take k (folder_writes now driveId st fs)) st)"
    using syncFoldersForDrive_store by blast
  let ?ws = "take k (folder_writes now driveId st fs)"
  have start: "\<exists>new. map_of (folder_docs st) ?i = Some new
                  \<and> fd_created_by_frontend new = Some True \<and> fd_created_at new = fd_created_at oldf"
    using a by simp
  have upd: "fd_created_by_frontend d = Some True \<and> fd_created_at d = fd_created_at oldf"
    if "Set_folder ?i d \<in> set ?ws" for d
  proof -
    from that have "Set_folder ?i d \<in> set (folder_writes now driveId st fs)"
      by (rule in_set_takeD)
    then obtain f where f: "f \<in> set fs" "f_id f = ?i"
        "d = folderData now driveId (map_of (folder_docs st) (f_id f)) f"
      by (auto simp: folder_writes_def)
    with a folderData_frontend[of oldf now driveId f] show ?thesis
      by simp
  qed
  from apply_writes_keeps_folder[OF start upd] k
  show "\<exists>new. map_of (folder_docs (snd (syncFoldersForDrive now driveId fs st))) ?i = Some new
           \<and> fd_created_by_frontend new = Some True \<and> fd_created_at new = fd_created_at oldf"
    by simp
qed
theorem frontend_records_survive_sync_witness:
  "map_of (shared_drives frontend_store) (drv_id (plain_drive ''D1'')) = Some frontend_drive
   \<and> dd_created_by_frontend frontend_drive = Some True
   \<and> plain_drive ''D1'' \<in> set [plain_drive ''D1'']
   \<and> dd_created_at (driveData 9 (shared_drives frontend_store) (plain_drive ''D1'')) = Some 3
   \<and> (\<exists>new. map_of (shared_drives (snd (syncSharedDrives 9 [plain_drive ''D1''] frontend_store)))
                (drv_id (plain_drive ''D1'')) = Some new
             \<and> dd_created_by_frontend new = Some True \<and> dd_created_at new = Some 3)
   \<and> map_of (folder_docs frontend_store) (f_id (plain_folder ''F1'' ''D1'')) = Some frontend_folder
   \<and> fd_created_by_frontend frontend_folder = Some True
   \<and> (\<exists>new. map_of (folder_docs (snd (syncFoldersForDrive 9 ''D1'' [plain_folder ''F1'' ''D1'']
                                          frontend_store)))
                (f_id (plain_folder ''F1'' ''D1'')) = Some new
             \<and> fd_created_by_frontend new = Some True \<and> fd_created_at new = Some 3)"
proof -
  have d: "map_of (shared_drives frontend_store) (drv_id (plain_drive ''D1'')) = Some frontend_drive"
    "dd_created_by_frontend frontend_drive = Some True" "dd_created_at frontend_drive = Some 3"
    by (simp_all add: frontend_store_def frontend_drive_def plain_drive_def)
  have f: "map_of (folder_docs frontend_store) (f_id (plain_folder ''F1'' ''D1'')) = Some frontend_folder"
    "fd_created_by_frontend frontend_folder = Some True" "fd_created_at frontend_folder = Some 3"
    by (simp_all add: frontend_store_def frontend_folder_def plain_folder_def)
  from frontend_records_survive_sync
         [where st = frontend_store and drive = "plain_drive ''D1''" and old = frontend_drive
            and now = 9 and drives = "[plain_drive ''D1'']"
            and folder = "plain_folder ''F1'' ''D1''" and oldf = frontend_folder
            and driveId = "''D1''" and fs = "[plain_folder ''F1'' ''D1'']"]
  show ?thesis
    by (simp add: d f)
qed

subsection \<open>Reconciling the drive collection\<close>

lemma keys_after_delete: "fst ` set (AList.delete k al) = fst ` set al - {k}"
proof -
  have "set (map fst (AList.delete k al)) = set (map fst al) - {k}"
    by (simp only: delete_keys set_removeAll)
  then show ?thesis by simp
qed

lemma keys_after_drive_deletes:
  "fst ` set (shared_drives (apply_writes (map Delete_drive js) st))
     = fst ` set (shared_drives st) - set js"
proof (induction js arbitrary: st)
  case Nil
  then show ?case by simp
next
  case (Cons j js)
  show ?case
    by (simp add: Cons.IH keys_after_delete) blast
qed

lemma keys_after_drive_sets:
  "fst ` set (shared_drives (apply_writes (map (\<lambda>d. Set_drive (drv_id d) (f d)) ds) st))
     = fst ` set (shared_drives st) \<union> drv_id ` set ds"
proof (induction ds arbitrary: st)
  case Nil
  then show ?case by simp
next
  case (Cons d ds)
  show ?case
    by (simp add: Cons.IH dom_update)
qed

text \<open>
  Within one batch, and with data that have all their values, the call succeeds, and the
  mirror then holds exactly the ids of the listing; the deletions are the mirror-only
  ids, each once when the ids of the mirror are unique.
\<close>

lemma syncSharedDrives_within_one_batch:
  assumes "initialized st"
    and "length (drivesToDelete (shared_drives st) drives) + length drives \<le> batchSize"
    and valid: "\<forall>d \<in> set drives. dd_undefined (driveData now (shared_drives st) d) = []"
  shows "fst (syncSharedDrives now drives st)
           = Inr \<lparr>processed = length drives,
                  deleted = length (drivesToDelete (shared_drives st) drives),
                  total = length drives\<rparr>"
    and "fst ` set (shared_drives (snd (syncSharedDrives now drives st))) = drv_id ` set drives"
    and "set (drivesToDelete (shared_drives st) drives)
           = fst ` set (shared_drives st) - drv_id ` set drives"
    and "distinct (map fst (shared_drives st))
           \<Longrightarrow> distinct (drivesToDelete (shared_drives st) drives)"
proof -
  let ?dels = "drivesToDelete (shared_drives st) drives"
  let ?ws = "drive_writes now (shared_drives st) drives"
  have lw: "length ?ws = length ?dels + length drives"
    by (simp add: drive_writes_def)
  show "fst (syncSharedDrives now drives st)
           = Inr \<lparr>processed = length drives, deleted = length ?dels, total = length drives\<rparr>"
    using assms(2) by (simp add: syncSharedDrives_result_valid[OF assms(1) valid] Let_def lw [symmetric])
  show dels: "set ?dels = fst ` set (shared_drives st) - drv_id ` set drives"
    by (auto simp: drivesToDelete_def)
  have "shared_drives (snd (syncSharedDrives now drives st)) = shared_drives (apply_writes ?ws st)"
    using assms(2)
    by (cases "length ?ws = 0")
       (simp_all add: syncSharedDrives_result_valid[OF assms(1) valid] Let_def lw [symmetric] commit_writes_def)
  then have "fst ` set (shared_drives (snd (syncSharedDrives now drives st)))
               = (fst ` set (shared_drives st) - set ?dels) \<union> drv_id ` set drives"
    by (simp add: drive_writes_def apply_writes_append keys_after_drive_sets keys_after_drive_deletes)
  then show "fst ` set (shared_drives (snd (syncSharedDrives now drives st))) = drv_id ` set drives"
    unfolding dels by blast
  show "distinct (map fst (shared_drives st)) \<Longrightarrow> distinct ?dels"
    by (simp add: drivesToDelete_def)
qed

text \<open>No call ever sends a deletion of an id of the listing, whatever its outcome.\<close>

lemma syncSharedDrives_never_deletes_listed:
  assumes "batch \<in> set (commits (snd (syncSharedDrives now drives st)))"
    and "batch \<notin> set (commits st)"
    and "Delete_drive j \<in> set batch"
  shows "j \<notin> drv_id ` set drives \<and> j \<in> fst ` set (shared_drives st)"
proof -
  let ?ws = "drive_writes now (shared_drives st) drives"
  have init: "initialized st"
    using assms(1,2) by (auto simp: syncSharedDrives_def split: if_splits)
  have "batch = ?ws \<or> batch = take batchSize ?ws"
    using assms(1,2)
    by (auto simp: syncSharedDrives_result[OF init] Let_def commit_writes_def split: if_splits)
  then have "Delete_drive j \<in> set ?ws"
    using assms(3) by (auto dest: in_set_takeD)
  then have "j \<in> set (drivesToDelete (shared_drives st) drives)"
    by (auto simp: drive_writes_def)
  then show ?thesis
    by (auto simp: drivesToDelete_def)
qed

text \<open>The scenario of the specification: the listing has D1 and D2, the mirror D1 and D3.\<close>

lemma syncSharedDrives_scenario:
  "fst (syncSharedDrives 9 [plain_drive ''D1'', plain_drive ''D2''] scenario_mirror)
     = Inr \<lparr>processed = 2, deleted = 1, total = 2\<rparr>
   \<and> map fst (shared_drives (snd (syncSharedDrives 9 [plain_drive ''D1'', plain_drive ''D2'']
                                      scenario_mirror))) = [''D1'', ''D2'']
   \<and> drivesToDelete (shared_drives scenario_mirror) [plain_drive ''D1'', plain_drive ''D2''] = [''D3'']"
proof -
  have init: "initialized scenario_mirror"
    by (simp add: scenario_mirror_def empty_store_def)
  have valid: "\<forall>d \<in> set [plain_drive ''D1'', plain_drive ''D2''].
                 dd_undefined (driveData 9 (shared_drives scenario_mirror) d) = []"
    by (simp add: driveData_undefined scenario_mirror_def empty_store_def plain_drive_def driveData_def)
  show ?thesis
    unfolding syncSharedDrives_result_valid[OF init valid]
    by (simp add: Let_def drive_writes_def drivesToDelete_def scenario_mirror_def empty_store_def
          plain_drive_def batchSize_def commit_writes_def)
qed

text \<open>
  C1. Every drive of the listing should be upserted and every mirror-only id deleted.
  With 501 drives in the listing and an empty mirror, the call throws after its first
  batch and the 501st drive is not in the mirror; with 501 mirror-only ids and an empty
  listing, it throws after 500 deletions and the 501st id is still in the mirror.
\<close>

theorem syncSharedDrives_stops_after_500_writes:
  "fst (syncSharedDrives 7 (many_drives 501) empty_store) = Inl Batch_committed
   \<and> drv_id (many_drives 501 ! 500)
       \<notin> fst ` set (shared_drives (snd (syncSharedDrives 7 (many_drives 501) empty_store)))
   \<and> fst (syncSharedDrives 7 [] (stale_mirror 501)) = Inl Batch_committed
   \<and> fst (shared_drives (stale_mirror 501) ! 500)
       \<in> fst ` set (shared_drives (snd (syncSharedDrives 7 [] (stale_mirror 501))))"
proof -
  have init: "initialized empty_store" "initialized (stale_mirror 501)"
    by (simp_all add: empty_store_def stale_mirror_def)
  let ?f = "\<lambda>d. driveData 7 (shared_drives empty_store) d"
  have ws1: "drive_writes 7 (shared_drives empty_store) (many_drives 501)
               = map (\<lambda>d. Set_drive (drv_id d) (?f d)) (many_drives 501)"
    by (simp add: drive_writes_def drivesToDelete_def empty_store_def)
  have valid1: "\<forall>d \<in> set (many_drives 501). dd_undefined (driveData 7 (shared_drives empty_store) d) = []"
    by (simp add: driveData_undefined empty_store_def)
  have valid2: "\<forall>d \<in> set []. dd_undefined (driveData 7 (shared_drives (stale_mirror 501)) d) = []"
    by simp
  have r1: "syncSharedDrives 7 (many_drives 501) empty_store =
      (Inl Batch_committed,
       commit_writes (map (\<lambda>d. Set_drive (drv_id d) (?f d)) (take 500 (many_drives 501))) empty_store)"
    unfolding syncSharedDrives_result_valid[OF init(1) valid1] Let_def ws1
    by (simp add: batchSize_def many_drives_def take_map)
  have t1: "take 500 (many_drives 501) = many_drives 500"
    by (simp add: many_drives_def take_map)
  have k1: "fst ` set (shared_drives (snd (syncSharedDrives 7 (many_drives 501) empty_store)))
              = drv_id ` set (many_drives 500)"
    unfolding r1 t1 by (simp add: commit_writes_def keys_after_drive_sets empty_store_def)
  have l1: "length (drv_id (many_drives 501 ! 500)) = 501"
    by (simp add: many_drives_def plain_drive_def)
  have b1: "\<forall>i \<in> drv_id ` set (many_drives 500). length i \<le> 500"
    by (auto simp: many_drives_def plain_drive_def)
  have not1: "drv_id (many_drives 501 ! 500) \<notin> drv_id ` set (many_drives 500)"
    using l1 b1 by force
  let ?ids = "map (\<lambda>k. replicate (Suc k) (CHR ''s'')) [0 ..< 501]"
  have keys2: "map fst (shared_drives (stale_mirror 501)) = ?ids"
    by (simp add: stale_mirror_def comp_def)
  have ws2: "drive_writes 7 (shared_drives (stale_mirror 501)) [] = map Delete_drive ?ids"
    by (simp add: drive_writes_def drivesToDelete_def keys2)
  have r2: "syncSharedDrives 7 [] (stale_mirror 501) =
      (Inl Batch_committed,
       commit_writes (map Delete_drive (take 500 ?ids)) (stale_mirror 501))"
    unfolding syncSharedDrives_result_valid[OF init(2) valid2] Let_def ws2
    by (simp add: batchSize_def take_map)
  have "fst ` set (shared_drives (stale_mirror 501)) = set (map fst (shared_drives (stale_mirror 501)))"
    by simp
  then have keys2': "fst ` set (shared_drives (stale_mirror 501)) = set ?ids"
    unfolding keys2 .
  have "fst ` set (shared_drives (snd (syncSharedDrives 7 [] (stale_mirror 501))))
              = fst ` set (shared_drives (stale_mirror 501)) - set (take 500 ?ids)"
    unfolding r2 by (simp add: commit_writes_def keys_after_drive_deletes)
  then have k2: "fst ` set (shared_drives (snd (syncSharedDrives 7 [] (stale_mirror 501))))
              = set ?ids - set (take 500 ?ids)"
    unfolding keys2' .
  have x: "fst (shared_drives (stale_mirror 501) ! 500) = ?ids ! 500"
    unfolding keys2[symmetric] by (simp add: stale_mirror_def)
  have in2: "?ids ! 500 \<in> set ?ids"
    by (rule nth_mem) simp
  have l2: "length (?ids ! 500) = 501"
    by simp
  have b2: "\<forall>i \<in> set (take 500 ?ids). length i \<le> 500"
    by (auto simp: take_map)
  have out2: "?ids ! 500 \<notin> set (take 500 ?ids)"
    using l2 b2 by force
  show ?thesis
    unfolding k1 k2 x using not1 in2 out2 by (simp add: r1 r2)
qed

subsection \<open>Path resolution\<close>

lemma unresolved_map_of:
  "map_of (unresolved fm) i = map_option (\<lambda>f. f\<lparr>f_full_path := None\<rparr>) (map_of fm i)"
  by (induction fm) (auto simp: unresolved_def)

lemma unresolved_keys: "map fst (unresolved fm) = map fst fm"
  by (induction fm) (auto simp: unresolved_def)

lemma unresolved_update:
  assumes "map_of (unresolved fm) i = Some (f\<lparr>f_full_path := None\<rparr>)"
  shows "unresolved (AList.update i (f\<lparr>f_full_path := q\<rparr>) fm) = unresolved fm"
  using assms
proof (induction fm)
  case Nil
  then show ?case by (simp add: unresolved_def)
next
  case (Cons kv fm)
  obtain k v where kv: "kv = (k, v)" by (cases kv)
  show ?case
  proof (cases "k = i")
    case True
    with Cons.prems kv have "v\<lparr>f_full_path := None\<rparr> = f\<lparr>f_full_path := None\<rparr>"
      by (simp add: unresolved_def)
    then show ?thesis
      using True kv by (simp add: unresolved_def)
  next
    case False
    with Cons.prems kv have "map_of (unresolved fm) i = Some (f\<lparr>f_full_path := None\<rparr>)"
      by (simp add: unresolved_def)
    from Cons.IH[OF this] show ?thesis
      using False kv by (simp add: unresolved_def)
  qed
qed

lemma parent_steps_functional:
  "(c, p) \<in> parent_steps fm d \<Longrightarrow> (c, p') \<in> parent_steps fm d \<Longrightarrow> p = p'"
  by (auto simp: parent_steps_def)

lemma path_to_acyclic:
  assumes "path_to fm d i q"
  shows "(i, i) \<notin> (parent_steps fm d)\<^sup>+"
  using assms
proof (induction rule: path_to.induct)
  case (root i f)
  show ?case
  proof
    assume "(i, i) \<in> (parent_steps fm d)\<^sup>+"
    then obtain z where "(i, z) \<in> parent_steps fm d"
      by (auto dest: tranclD)
    with root show False
      by (auto simp: parent_steps_def)
  qed
next
  case (child i f p pp)
  show ?case
  proof
    assume "(i, i) \<in> (parent_steps fm d)\<^sup>+"
    then obtain z where z: "(i, z) \<in> parent_steps fm d" "(z, i) \<in> (parent_steps fm d)\<^sup>*"
      by (auto dest: tranclD)
    have ip: "(i, p) \<in> parent_steps fm d"
      using child.hyps by (auto simp: parent_steps_def)
    with z(1) have "z = p"
      by (rule parent_steps_functional)
    with z(2) ip have "(p, p) \<in> (parent_steps fm d)\<^sup>+"
      by (meson rtrancl_into_trancl1)
    with child.IH show False by simp
  qed
qed

lemma path_to_root_only:
  assumes "path_to fm d i q" and "map_of fm i = Some f"
    and "\<not> truthy (first_parent f) \<or> first_parent f = Some d"
  shows "q = ''/'' @ f_name f"
  using assms by (cases rule: path_to.cases) auto

lemma path_to_child_only:
  assumes "path_to fm d i q" and "map_of fm i = Some f"
    and "first_parent f = Some p" and "truthy (Some p)" and "p \<noteq> d"
  shows "\<exists>pp. path_to fm d p pp \<and> q = pp @ ''/'' @ f_name f"
  using assms by (cases rule: path_to.cases) auto
lemma keeps_paths_refl: "keeps_paths fm fm"
  by (simp add: keeps_paths_def)

lemma keeps_paths_trans: "keeps_paths a b \<Longrightarrow> keeps_paths b c \<Longrightarrow> keeps_paths a c"
  unfolding keeps_paths_def by blast

lemma resolved_lookup:
  assumes "resolved_so_far fm0 d fm"
  shows "map_of fm0 i = map_option (\<lambda>f. f\<lparr>f_full_path := None\<rparr>) (map_of fm i)"
  using assms unresolved_map_of[of fm i] by (simp add: resolved_so_far_def)

text \<open>Storing the right path of a folder that has none yet.\<close>

lemma resolved_store:
  assumes res: "resolved_so_far fm0 d fm'"
    and old: "map_of fm0 i = Some (f\<lparr>f_full_path := None\<rparr>)"
    and right: "\<And>q. path_to fm0 d i q \<Longrightarrow> q = r"
  shows "resolved_so_far fm0 d (AList.update i (f\<lparr>f_full_path := Some r\<rparr>) fm')"
proof -
  have shape: "unresolved fm' = fm0"
    using res by (simp add: resolved_so_far_def)
  have "unresolved (AList.update i (f\<lparr>f_full_path := Some r\<rparr>) fm') = unresolved fm'"
    using old by (intro unresolved_update) (simp add: shape)
  moreover have "p = q"
    if "map_of (AList.update i (f\<lparr>f_full_path := Some r\<rparr>) fm') j = Some g"
      and "f_full_path g = Some p" and "path_to fm0 d j q" for j g p q
  proof (cases "j = i")
    case True
    with that(1,2) have "p = r"
      by (auto simp: update_conv')
    with right that(3) True show ?thesis by auto
  next
    case False
    with that(1) have "map_of fm' j = Some g"
      by (simp add: update_conv')
    with res that(2,3) show ?thesis
      unfolding resolved_so_far_def by blast
  qed
  ultimately show ?thesis
    unfolding resolved_so_far_def using shape by blast
qed

lemma keeps_paths_store:
  assumes "keeps_paths fm fm'" and "map_of fm i = Some f" and "f_full_path f = None"
  shows "keeps_paths fm (AList.update i g fm')"
  unfolding keeps_paths_def
proof (intro allI impI)
  fix j h p
  assume h: "map_of fm j = Some h" "f_full_path h = Some p"
  with assms(2,3) have "j \<noteq> i" by auto
  moreover from assms(1) h obtain h' where "map_of fm' j = Some h'" "f_full_path h' = Some p"
    unfolding keeps_paths_def by blast
  ultimately show "\<exists>f'. map_of (AList.update i g fm') j = Some f' \<and> f_full_path f' = Some p"
    by (simp add: update_conv')
qed

lemma calculatePath_resolves:
  "resolved_so_far fm0 d fm \<Longrightarrow> (\<forall>v \<in> set visited. (v, i) \<in> (parent_steps fm0 d)\<^sup>+) \<Longrightarrow>
     resolved_so_far fm0 d (snd (calculatePath d i visited fm))
     \<and> keeps_paths fm (snd (calculatePath d i visited fm))
     \<and> (\<forall>q. path_to fm0 d i q \<longrightarrow> fst (calculatePath d i visited fm) = q)
     \<and> (i \<notin> set visited \<longrightarrow> map_of fm i \<noteq> None \<longrightarrow>
          (\<exists>f'. map_of (snd (calculatePath d i visited fm)) i = Some f'
                \<and> f_full_path f' = Some (fst (calculatePath d i visited fm))))"
proof (induction d i visited fm rule: calculatePath.induct)
  case (1 d i visited fm)
  note res = "1.prems"(1) and vis = "1.prems"(2)
  show ?case
  proof (cases "i \<in> set visited")
    case True
    have "\<not> path_to fm0 d i q" for q
    proof
      assume "path_to fm0 d i q"
      then have "(i, i) \<notin> (parent_steps fm0 d)\<^sup>+"
        by (rule path_to_acyclic)
      with vis True show False by blast
    qed
    with True res show ?thesis
      by (simp add: calculatePath.simps keeps_paths_refl)
  next
    case fresh: False
    show ?thesis
    proof (cases "map_of fm i")
      case None
      then have "map_of fm0 i = None"
        using resolved_lookup[OF res, of i] by simp
      then have "\<not> path_to fm0 d i q" for q
        by (auto elim: path_to.cases)
      with fresh None res show ?thesis
        by (simp add: calculatePath.simps keeps_paths_refl)
    next
      case (Some f)
      have f0: "map_of fm0 i = Some (f\<lparr>f_full_path := None\<rparr>)"
        using resolved_lookup[OF res, of i] Some by simp
      have fp0: "first_parent (f\<lparr>f_full_path := None\<rparr>) = first_parent f"
        and nm0: "f_name (f\<lparr>f_full_path := None\<rparr>) = f_name f"
        by (simp_all add: first_parent_def)
      show ?thesis
      proof (cases "f_full_path f")
        case (Some p)
        have "p = q" if "path_to fm0 d i q" for q
          using res \<open>map_of fm i = Some f\<close> Some that unfolding resolved_so_far_def by blast
        with fresh \<open>map_of fm i = Some f\<close> Some res show ?thesis
          by (auto simp: calculatePath.simps keeps_paths_refl)
      next
        case None
        show ?thesis
        proof (cases "\<not> truthy (first_parent f) \<or> first_parent f = Some d")
          case True
          let ?r = "''/'' @ f_name f"
          have calc: "calculatePath d i visited fm = (?r, AList.update i (f\<lparr>f_full_path := Some ?r\<rparr>) fm)"
            using fresh \<open>map_of fm i = Some f\<close> None True
            by (subst calculatePath.simps) (auto simp: Let_def)
          have right: "q = ?r" if "path_to fm0 d i q" for q
            using path_to_root_only[OF that f0] True by (simp add: fp0 nm0)
          have a: "resolved_so_far fm0 d (AList.update i (f\<lparr>f_full_path := Some ?r\<rparr>) fm)"
            using res f0 right by (rule resolved_store)
          have b: "keeps_paths fm (AList.update i (f\<lparr>f_full_path := Some ?r\<rparr>) fm)"
            using keeps_paths_refl \<open>map_of fm i = Some f\<close> None by (rule keeps_paths_store)
          show ?thesis
            unfolding calc using a b right by (auto simp: update_conv')
        next
          case False
          then obtain p where p: "first_parent f = Some p" "truthy (Some p)" "p \<noteq> d"
            by (cases "first_parent f") auto
          let ?R = "calculatePath d p (i # visited) fm"
          let ?r = "fst ?R @ ''/'' @ f_name f"
          have calc: "calculatePath d i visited fm
                        = (?r, AList.update i (f\<lparr>f_full_path := Some ?r\<rparr>) (snd ?R))"
            using fresh \<open>map_of fm i = Some f\<close> None False p
            by (subst calculatePath.simps) (auto simp: Let_def split: prod.splits)
          have step: "(i, p) \<in> parent_steps fm0 d"
            using f0 p by (auto simp: parent_steps_def fp0)
          have vis': "\<forall>v \<in> set (i # visited). (v, p) \<in> (parent_steps fm0 d)\<^sup>+"
          proof
            fix v assume "v \<in> set (i # visited)"
            then consider "v = i" | "v \<in> set visited" by auto
            then show "(v, p) \<in> (parent_steps fm0 d)\<^sup>+"
            proof cases
              case 1
              with step show ?thesis by auto
            next
              case 2
              with vis have "(v, i) \<in> (parent_steps fm0 d)\<^sup>+" by blast
              with step show ?thesis by (meson trancl.trancl_into_trancl)
            qed
          qed
          have ih: "resolved_so_far fm0 d (snd ?R) \<and> keeps_paths fm (snd ?R)
                     \<and> (\<forall>q. path_to fm0 d p q \<longrightarrow> fst ?R = q)"
            using "1.IH"[OF fresh \<open>map_of fm i = Some f\<close> None refl False res] vis' p(1)
            by simp
          have right: "q = ?r" if "path_to fm0 d i q" for q
          proof -
            from path_to_child_only[OF that f0] p obtain pp
              where "path_to fm0 d p pp" "q = pp @ ''/'' @ f_name f"
              by (auto simp: fp0 nm0)
            with ih show ?thesis by auto
          qed
          have a: "resolved_so_far fm0 d (AList.update i (f\<lparr>f_full_path := Some ?r\<rparr>) (snd ?R))"
            using ih f0 right by (intro resolved_store) auto
          have b: "keeps_paths fm (AList.update i (f\<lparr>f_full_path := Some ?r\<rparr>) (snd ?R))"
            using ih \<open>map_of fm i = Some f\<close> None by (intro keeps_paths_store) auto
          show ?thesis
            unfolding calc using a b right by (auto simp: update_conv')
        qed
      qed
    qed
  qed
qed
lemma set_update_subset: "set (AList.update k v al) \<subseteq> insert (k, v) (set al)"
  by (induction al) auto

lemma folderMap0_fold_entries:
  assumes "\<forall>(k, f) \<in> set acc. f_id f = k \<and> f_full_path f = None"
  shows "\<forall>(k, f) \<in> set (fold (\<lambda>folder m. AList.update (f_id folder) (folder\<lparr>f_full_path := None\<rparr>) m) fs acc).
           f_id f = k \<and> f_full_path f = None"
  using assms
proof (induction fs arbitrary: acc)
  case Nil
  then show ?case by simp
next
  case (Cons x fs)
  have "\<forall>(k, f) \<in> set (AList.update (f_id x) (x\<lparr>f_full_path := None\<rparr>) acc).
          f_id f = k \<and> f_full_path f = None"
    using Cons.prems set_update_subset[of "f_id x" "x\<lparr>f_full_path := None\<rparr>" acc] by auto
  from Cons.IH[OF this] show ?case by simp
qed

lemma folderMap0_fold_keys:
  "fst ` set (fold (\<lambda>folder m. AList.update (f_id folder) (folder\<lparr>f_full_path := None\<rparr>) m) fs acc)
     = fst ` set acc \<union> f_id ` set fs"
  by (induction fs arbitrary: acc) (auto simp: dom_update)

lemma folderMap0_fold_distinct:
  "distinct (map fst acc) \<Longrightarrow>
   distinct (map fst (fold (\<lambda>folder m. AList.update (f_id folder) (folder\<lparr>f_full_path := None\<rparr>) m) fs acc))"
  by (induction fs arbitrary: acc) (auto simp: distinct_update)

lemma folderMap0_entries:
  "(k, f) \<in> set (folderMap0 fs) \<Longrightarrow> f_id f = k \<and> f_full_path f = None"
  using folderMap0_fold_entries[of "[]" fs] unfolding folderMap0_def by auto

lemma folderMap0_keys: "fst ` set (folderMap0 fs) = f_id ` set fs"
  using folderMap0_fold_keys[of fs "[]"] unfolding folderMap0_def by simp

lemma folderMap0_distinct: "distinct (map fst (folderMap0 fs))"
  using folderMap0_fold_distinct[of "[]" fs] unfolding folderMap0_def by simp

lemma folderMap0_unresolved: "unresolved (folderMap0 fs) = folderMap0 fs"
proof -
  have "(case kf of (k, f) \<Rightarrow> (k, f\<lparr>f_full_path := None\<rparr>)) = kf" if "kf \<in> set (folderMap0 fs)" for kf
  proof -
    obtain k f where kf: "kf = (k, f)" by (cases kf)
    with that have "f_full_path f = None"
      using folderMap0_entries by blast
    then have "f\<lparr>f_full_path := None\<rparr> = f"
      by (metis api_folder.surjective api_folder.update_convs(7) api_folder.select_convs(7))
    then show ?thesis by (simp add: kf)
  qed
  then show ?thesis
    unfolding unresolved_def by (simp add: map_idI)
qed

lemma folderMap0_resolved: "resolved_so_far (folderMap0 fs) d (folderMap0 fs)"
  unfolding resolved_so_far_def
proof (intro conjI allI impI)
  show "unresolved (folderMap0 fs) = folderMap0 fs"
    by (rule folderMap0_unresolved)
next
  fix j f p q
  assume "map_of (folderMap0 fs) j = Some f" and "f_full_path f = Some p"
  then have False
    using folderMap0_entries[of j f fs] by (auto dest: map_of_SomeD)
  then show "p = q" ..
qed

lemma resolve_all:
  assumes "resolved_so_far fm0 d fm"
  shows "resolved_so_far fm0 d (fold (\<lambda>folder m. snd (calculatePath d (f_id folder) [] m)) fs fm)
       \<and> keeps_paths fm (fold (\<lambda>folder m. snd (calculatePath d (f_id folder) [] m)) fs fm)
       \<and> (\<forall>folder \<in> set fs. map_of fm0 (f_id folder) \<noteq> None \<longrightarrow>
            (\<exists>f' r. map_of (fold (\<lambda>folder m. snd (calculatePath d (f_id folder) [] m)) fs fm)
                       (f_id folder) = Some f'
                  \<and> f_full_path f' = Some r
                  \<and> (\<forall>q. path_to fm0 d (f_id folder) q \<longrightarrow> q = r)))"
  using assms
proof (induction fs arbitrary: fm)
  case Nil
  then show ?case by (simp add: keeps_paths_refl)
next
  case (Cons x fs)
  let ?R = "calculatePath d (f_id x) [] fm"
  let ?fm' = "fold (\<lambda>folder m. snd (calculatePath d (f_id folder) [] m)) fs (snd ?R)"
  have one: "resolved_so_far fm0 d (snd ?R)" "keeps_paths fm (snd ?R)"
    "\<forall>q. path_to fm0 d (f_id x) q \<longrightarrow> fst ?R = q"
    "map_of fm (f_id x) \<noteq> None \<longrightarrow>
       (\<exists>f'. map_of (snd ?R) (f_id x) = Some f' \<and> f_full_path f' = Some (fst ?R))"
    using calculatePath_resolves[OF Cons.prems, of "[]" "f_id x"] by simp_all
  note ih = Cons.IH[OF one(1)]
  have keeps: "keeps_paths fm ?fm'"
    using one(2) ih by (blast intro: keeps_paths_trans)
  have x: "\<exists>f' r. map_of ?fm' (f_id x) = Some f' \<and> f_full_path f' = Some r
                 \<and> (\<forall>q. path_to fm0 d (f_id x) q \<longrightarrow> q = r)"
    if "map_of fm0 (f_id x) \<noteq> None"
  proof -
    from that have "map_of fm (f_id x) \<noteq> None"
      using resolved_lookup[OF Cons.prems, of "f_id x"] by auto
    with one(4) obtain f1 where f1: "map_of (snd ?R) (f_id x) = Some f1"
        "f_full_path f1 = Some (fst ?R)"
      by blast
    with ih obtain f' where "map_of ?fm' (f_id x) = Some f'" "f_full_path f' = Some (fst ?R)"
      unfolding keeps_paths_def by blast
    with one(3) show ?thesis by blast
  qed
  show ?case
    using ih keeps x by auto
qed

text \<open>The result has one folder for each id of the input, in the order of first occurrence.\<close>

lemma calculateFolderPaths_ids:
  "map f_id (calculateFolderPaths fs d) = map fst (folderMap0 fs)"
  "distinct (map f_id (calculateFolderPaths fs d))"
  "f_id ` set (calculateFolderPaths fs d) = f_id ` set fs"
proof -
  let ?fm' = "fold (\<lambda>folder m. snd (calculatePath d (f_id folder) [] m)) fs (folderMap0 fs)"
  have res: "resolved_so_far (folderMap0 fs) d ?fm'"
    using resolve_all[OF folderMap0_resolved] by blast
  then have shape: "unresolved ?fm' = folderMap0 fs"
    by (simp add: resolved_so_far_def)
  have ids: "f_id f = k" if "(k, f) \<in> set ?fm'" for k f
  proof -
    from that have "(k, f\<lparr>f_full_path := None\<rparr>) \<in> set (unresolved ?fm')"
      unfolding unresolved_def by force
    then have "f_id (f\<lparr>f_full_path := None\<rparr>) = k"
      unfolding shape using folderMap0_entries by blast
    then show ?thesis by simp
  qed
  have "map f_id (map snd ?fm') = map fst ?fm'"
    using ids by (auto simp: map_eq_conv)
  also have "\<dots> = map fst (unresolved ?fm')"
    by (simp add: unresolved_keys)
  finally show a: "map f_id (calculateFolderPaths fs d) = map fst (folderMap0 fs)"
    by (simp add: calculateFolderPaths_def shape)
  show "distinct (map f_id (calculateFolderPaths fs d))"
    unfolding a by (rule folderMap0_distinct)
  have "f_id ` set (calculateFolderPaths fs d) = set (map f_id (calculateFolderPaths fs d))"
    by simp
  also have "\<dots> = fst ` set (folderMap0 fs)"
    unfolding a by simp
  finally show "f_id ` set (calculateFolderPaths fs d) = f_id ` set fs"
    by (simp add: folderMap0_keys)
qed

lemma calculateFolderPaths_path:
  "\<forall>f \<in> set (calculateFolderPaths fs d).
      \<exists>r. f_full_path f = Some r \<and> (\<forall>q. path_to (folderMap0 fs) d (f_id f) q \<longrightarrow> q = r)"
proof
  fix f assume f: "f \<in> set (calculateFolderPaths fs d)"
  let ?fm' = "fold (\<lambda>folder m. snd (calculatePath d (f_id folder) [] m)) fs (folderMap0 fs)"
  note all = resolve_all[OF folderMap0_resolved, of fs d fs]
  from f obtain k where kf: "(k, f) \<in> set ?fm'"
    by (auto simp: calculateFolderPaths_def)
  have dist: "distinct (map fst ?fm')"
    using calculateFolderPaths_ids(1)[of fs d] folderMap0_distinct[of fs] all
    by (metis resolved_so_far_def unresolved_keys)
  from kf dist have look: "map_of ?fm' k = Some f"
    by simp
  have "f_id f \<in> f_id ` set (calculateFolderPaths fs d)"
    using f by simp
  then obtain x where x: "x \<in> set fs" "f_id x = f_id f"
    unfolding calculateFolderPaths_ids(3) by auto
  have k: "k = f_id f"
  proof -
    have "(k, f\<lparr>f_full_path := None\<rparr>) \<in> set (unresolved ?fm')"
      using kf unfolding unresolved_def by force
    moreover have "unresolved ?fm' = folderMap0 fs"
      using all by (simp add: resolved_so_far_def)
    ultimately show ?thesis
      using folderMap0_entries[of k "f\<lparr>f_full_path := None\<rparr>" fs] by simp
  qed
  have "map_of (folderMap0 fs) (f_id x) \<noteq> None"
  proof -
    have "f_id x \<in> fst ` set (folderMap0 fs)"
      using x(1) by (simp add: folderMap0_keys)
    then show ?thesis
      by (metis domIff dom_map_of_conv_image_fst)
  qed
  with all x(1) obtain f' r where "map_of ?fm' (f_id x) = Some f'" "f_full_path f' = Some r"
    "\<forall>q. path_to (folderMap0 fs) d (f_id x) q \<longrightarrow> q = r"
    by blast
  with look k x(2) show "\<exists>r. f_full_path f = Some r \<and> (\<forall>q. path_to (folderMap0 fs) d (f_id f) q \<longrightarrow> q = r)"
    by auto
qed
text \<open>
  C8. Path resolution gives every folder whose chain of parents leads to the drive the
  names along the chain, each after a slash (for A under the drive, B under A and C
  under B: /A, /A/B and /A/B/C); and it gives every folder of its input a path, also a
  folder on a cycle of parents. (That it returns at all on every input is the
  termination of \<open>calculatePath\<close>, proved where it is defined.)
\<close>

theorem calculateFolderPaths_assigns_paths:
  "(path_to (folderMap0 fs) d i q
      \<longrightarrow> (\<exists>f \<in> set (calculateFolderPaths fs d). f_id f = i \<and> f_full_path f = Some q))
   \<and> (\<forall>f \<in> set (calculateFolderPaths fs d). f_full_path f \<noteq> None)
   \<and> f_id ` set (calculateFolderPaths fs d) = f_id ` set fs"
proof (intro conjI impI)
  assume p: "path_to (folderMap0 fs) d i q"
  then have "map_of (folderMap0 fs) i \<noteq> None"
    by (auto elim: path_to.cases)
  then have "i \<in> fst ` set (folderMap0 fs)"
    by (metis domIff dom_map_of_conv_image_fst)
  then have "i \<in> f_id ` set (calculateFolderPaths fs d)"
    by (simp add: folderMap0_keys calculateFolderPaths_ids(3))
  then obtain f where f: "f \<in> set (calculateFolderPaths fs d)" "f_id f = i"
    by auto
  with calculateFolderPaths_path[of fs d] p have "f_full_path f = Some q"
    by blast
  with f show "\<exists>f \<in> set (calculateFolderPaths fs d). f_id f = i \<and> f_full_path f = Some q"
    by blast
next
  show "\<forall>f \<in> set (calculateFolderPaths fs d). f_full_path f \<noteq> None"
    using calculateFolderPaths_path[of fs d] by auto
next
  show "f_id ` set (calculateFolderPaths fs d) = f_id ` set fs"
    by (rule calculateFolderPaths_ids(3))
qed

theorem calculateFolderPaths_assigns_paths_witness:
  "path_to (folderMap0 chain_folders) ''D1'' ''C'' ''/A/B/C''
   \<and> (\<exists>f \<in> set (calculateFolderPaths chain_folders ''D1''). f_id f = ''C'' \<and> f_full_path f = Some ''/A/B/C'')
   \<and> map (\<lambda>f. (f_id f, f_full_path f)) (calculateFolderPaths chain_folders ''D1'')
       = [(''C'', Some ''/A/B/C''), (''A'', Some ''/A''), (''B'', Some ''/A/B'')]
   \<and> map (\<lambda>f. (f_id f, f_full_path f)) (calculateFolderPaths cycle_folders ''D1'')
       = [(''D'', Some ''//E/D''), (''E'', Some ''//E'')]
   \<and> f_id ` set (calculateFolderPaths cycle_folders ''D1'') = {''D'', ''E''}"
proof -
  have fm: "folderMap0 chain_folders =
              [(''C'', plain_folder ''C'' ''B''), (''A'', plain_folder ''A'' ''D1''),
               (''B'', plain_folder ''B'' ''A'')]"
    by (simp add: folderMap0_def chain_folders_def plain_folder_def)
  have a: "path_to (folderMap0 chain_folders) ''D1'' ''A'' (''/'' @ f_name (plain_folder ''A'' ''D1''))"
    by (rule path_to.root) (simp_all add: fm first_parent_def plain_folder_def)
  have b: "path_to (folderMap0 chain_folders) ''D1'' ''B''
             ((''/'' @ f_name (plain_folder ''A'' ''D1'')) @ ''/'' @ f_name (plain_folder ''B'' ''A''))"
    by (rule path_to.child[OF _ _ _ _ a]) (simp_all add: fm first_parent_def plain_folder_def)
  have c: "path_to (folderMap0 chain_folders) ''D1'' ''C''
             (((''/'' @ f_name (plain_folder ''A'' ''D1'')) @ ''/'' @ f_name (plain_folder ''B'' ''A''))
                @ ''/'' @ f_name (plain_folder ''C'' ''B''))"
    by (rule path_to.child[OF _ _ _ _ b]) (simp_all add: fm first_parent_def plain_folder_def)
  then have c': "path_to (folderMap0 chain_folders) ''D1'' ''C'' ''/A/B/C''"
    by (simp add: plain_folder_def)
  have chain: "map (\<lambda>f. (f_id f, f_full_path f)) (calculateFolderPaths chain_folders ''D1'')
       = [(''C'', Some ''/A/B/C''), (''A'', Some ''/A''), (''B'', Some ''/A/B'')]"
    by (simp add: calculateFolderPaths_def folderMap0_def chain_folders_def plain_folder_def
          calculatePath.simps first_parent_def)
  have cycle: "map (\<lambda>f. (f_id f, f_full_path f)) (calculateFolderPaths cycle_folders ''D1'')
       = [(''D'', Some ''//E/D''), (''E'', Some ''//E'')]"
    by (simp add: calculateFolderPaths_def folderMap0_def cycle_folders_def plain_folder_def
          calculatePath.simps first_parent_def)
  have ids: "f_id ` set cycle_folders = {''D'', ''E''}"
    by (simp add: cycle_folders_def plain_folder_def)
  from calculateFolderPaths_assigns_paths[of chain_folders "''D1''" "''C''" "''/A/B/C''"]
       calculateFolderPaths_assigns_paths[of cycle_folders "''D1''" "''C''" "''/A/B/C''"]
       c' chain cycle ids
  show ?thesis
    by simp
qed

subsection \<open>The walk over the folders of a drive\<close>

lemma walk_Nil: "getSubfoldersRecursively listing [] = Some []"
  by (subst getSubfoldersRecursively.simps) simp

lemma walk_Cons:
  "getSubfoldersRecursively listing (folder # rest) =
     Option.bind
       (if length (getDirectSubfolders listing (f_id folder)) > 0
        then getSubfoldersRecursively listing (getDirectSubfolders listing (f_id folder))
        else Some [])
       (\<lambda>deeperSubfolders.
          Option.bind (getSubfoldersRecursively listing rest)
            (\<lambda>others. Some (getDirectSubfolders listing (f_id folder) @ deeperSubfolders @ others)))"
  by (subst getSubfoldersRecursively.simps) (simp add: Let_def)

lemma walk_cycle_aux:
  "getSubfoldersRecursively l fs = Some y \<Longrightarrow>
     \<not> (l = cyclic_listing \<and> (\<exists>q. fs = [plain_folder ''X'' q] \<or> fs = [plain_folder ''Y'' q]))"
proof (induction l fs y rule: getSubfoldersRecursively.raw_induct[rotated, consumes 1])
  case (1 walk l fs y)
  show ?case
  proof
    assume a: "l = cyclic_listing \<and> (\<exists>q. fs = [plain_folder ''X'' q] \<or> fs = [plain_folder ''Y'' q])"
    then obtain q where "fs = [plain_folder ''X'' q] \<or> fs = [plain_folder ''Y'' q]"
      by blast
    then show False
    proof
      assume "fs = [plain_folder ''X'' q]"
      with a "1.hyps" obtain z where "walk cyclic_listing [plain_folder ''Y'' ''X''] = Some z"
        by (auto simp: getDirectSubfolders_def cyclic_listing_def plain_folder_def
              split: Option.bind_splits)
      with "1.IH" show False by blast
    next
      assume "fs = [plain_folder ''Y'' q]"
      with a "1.hyps" obtain z where "walk cyclic_listing [plain_folder ''X'' ''Y''] = Some z"
        by (auto simp: getDirectSubfolders_def cyclic_listing_def plain_folder_def
              split: Option.bind_splits)
      with "1.IH" show False by blast
    qed
  qed
qed

lemma walk_cycle_never_returns:
  "getSubfoldersRecursively cyclic_listing [plain_folder ''X'' p] = None"
  using walk_cycle_aux[of cyclic_listing "[plain_folder ''X'' p]"] by (cases "getSubfoldersRecursively cyclic_listing [plain_folder ''X'' p]") auto
lemma descendants_empty: "descendants children {} = {}"
proof -
  have "False" if "x \<in> descendants children {}" for x
    using that by (induction rule: descendants.induct) auto
  then show ?thesis by auto
qed

lemma descendants_mono: "A \<subseteq> B \<Longrightarrow> descendants children A \<subseteq> descendants children B"
proof
  fix x assume "A \<subseteq> B" and "x \<in> descendants children A"
  from this(2) this(1) show "x \<in> descendants children B"
    by (induction rule: descendants.induct) (auto intro: descendants.intros)
qed

lemma descendants_Un:
  "descendants children (A \<union> B) = descendants children A \<union> descendants children B"
proof
  show "descendants children (A \<union> B) \<subseteq> descendants children A \<union> descendants children B"
  proof
    fix x assume "x \<in> descendants children (A \<union> B)"
    then show "x \<in> descendants children A \<union> descendants children B"
      by (induction rule: descendants.induct) (auto intro: descendants.intros)
  qed
  show "descendants children A \<union> descendants children B \<subseteq> descendants children (A \<union> B)"
    using descendants_mono[of A "A \<union> B" children] descendants_mono[of B "A \<union> B" children] by auto
qed

lemma descendants_single:
  "descendants children {p}
     = f_id ` set (children p) \<union> descendants children (f_id ` set (children p))"
proof
  let ?C = "f_id ` set (children p)"
  show "descendants children {p} \<subseteq> ?C \<union> descendants children ?C"
  proof
    fix x assume "x \<in> descendants children {p}"
    then show "x \<in> ?C \<union> descendants children ?C"
      by (induction rule: descendants.induct) (auto intro: descendants.intros)
  qed
  show "?C \<union> descendants children ?C \<subseteq> descendants children {p}"
  proof
    fix x assume "x \<in> ?C \<union> descendants children ?C"
    then consider "x \<in> ?C" | "x \<in> descendants children ?C" by auto
    then show "x \<in> descendants children {p}"
    proof cases
      case 1
      then show ?thesis by (auto intro: descendants.top)
    next
      case 2
      then show ?thesis
      proof (induction rule: descendants.induct)
        case (top q c)
        then have "q \<in> descendants children {p}"
          by (auto intro: descendants.top)
        from this top(2) show ?case
          by (rule descendants.sub)
      next
        case (sub q c)
        then show ?case
          by (auto intro: descendants.sub)
      qed
    qed
  qed
qed

text \<open>
  The walk from folders of a set \<open>S\<close> that is closed under the provider's tree, when
  every call for a folder of \<open>S\<close> returns the folders under it and each of these has a
  lower rank: it returns, with the folders that lie under its argument.
\<close>

lemma walk_returns:
  assumes calls: "\<forall>p \<in> S. listing p = Inr (children p)"
    and closed: "\<forall>p \<in> S. \<forall>c \<in> set (children p). f_id c \<in> S"
    and rank: "\<forall>p \<in> S. \<forall>c \<in> set (children p). rank (f_id c) < (rank p :: nat)"
  shows "f_id ` set fs \<subseteq> S \<Longrightarrow> (\<forall>f \<in> set fs. rank (f_id f) < n) \<Longrightarrow>
           \<exists>r. getSubfoldersRecursively listing fs = Some r
              \<and> f_id ` set r = descendants children (f_id ` set fs)"
proof (induction n arbitrary: fs)
  case 0
  then have "fs = []"
    by (cases fs) auto
  then show ?case
    by (simp add: walk_Nil descendants_empty)
next
  case (Suc n)
  from Suc.prems show ?case
  proof (induction fs)
    case Nil
    then show ?case
      by (simp add: walk_Nil descendants_empty)
  next
    case (Cons folder rest)
    have inS: "f_id folder \<in> S"
      using Cons.prems(1) by simp
    let ?subs = "getDirectSubfolders listing (f_id folder)"
    have subs: "?subs = children (f_id folder)"
      using calls inS by (simp add: getDirectSubfolders_def)
    have "\<forall>c \<in> set ?subs. rank (f_id c) < n"
    proof
      fix c assume "c \<in> set ?subs"
      with rank inS subs have "rank (f_id c) < rank (f_id folder)" by simp
      moreover have "rank (f_id folder) < Suc n"
        using Cons.prems(2) by simp
      ultimately show "rank (f_id c) < n" by simp
    qed
    moreover have "f_id ` set ?subs \<subseteq> S"
      using closed inS subs by auto
    ultimately obtain deeper where deeper:
      "getSubfoldersRecursively listing ?subs = Some deeper"
      "f_id ` set deeper = descendants children (f_id ` set ?subs)"
      using Suc.IH[of ?subs] by blast
    have "\<forall>f \<in> set rest. rank (f_id f) < Suc n" and "f_id ` set rest \<subseteq> S"
      using Cons.prems by simp_all
    from Cons.IH[OF this(2) this(1)] obtain others where others:
      "getSubfoldersRecursively listing rest = Some others"
      "f_id ` set others = descendants children (f_id ` set rest)"
      by blast
    have first: "(if length ?subs > 0 then getSubfoldersRecursively listing ?subs else Some [])
                   = Some deeper"
      using deeper(1) by (cases ?subs) (simp_all add: walk_Nil)
    have res: "getSubfoldersRecursively listing (folder # rest) = Some (?subs @ deeper @ others)"
      unfolding walk_Cons first others(1) by simp
    have "f_id ` set (folder # rest) = {f_id folder} \<union> f_id ` set rest"
      by simp
    then have "descendants children (f_id ` set (folder # rest))
                 = descendants children {f_id folder} \<union> descendants children (f_id ` set rest)"
      by (simp only: descendants_Un)
    also have "\<dots> = f_id ` set ?subs \<union> descendants children (f_id ` set ?subs)
                       \<union> descendants children (f_id ` set rest)"
      by (simp only: descendants_single subs)
    finally have "f_id ` set (?subs @ deeper @ others)
                    = descendants children (f_id ` set (folder # rest))"
      using deeper(2) others(2) by (simp add: image_Un Un_assoc)
    with res show ?case by blast
  qed
qed

text \<open>
  A walk that returns has met no folder that lies under itself: neither among its
  arguments nor under them, in the tree that the calls of \<^verbatim>\<open>getDirectSubfolders\<close> show.
\<close>

lemma walk_meets_no_cycle:
  "getSubfoldersRecursively listing fs = Some r \<Longrightarrow>
     \<forall>x \<in> f_id ` set fs \<union> descendants (getDirectSubfolders listing) (f_id ` set fs).
        x \<notin> descendants (getDirectSubfolders listing) {x}"
proof (induction listing fs r rule: getSubfoldersRecursively.raw_induct[rotated, consumes 1])
  case (1 walk listing fs r)
  let ?kids = "getDirectSubfolders listing"
  show ?case
  proof (cases fs)
    case Nil
    then show ?thesis
      by (simp add: descendants_empty)
  next
    case (Cons folder rest)
    let ?subs = "?kids (f_id folder)"
    from "1.hyps" Cons obtain deeper others where
      deep: "(if length ?subs > 0 then walk listing ?subs else Some []) = Some deeper"
      and rest: "walk listing rest = Some others"
      by (auto simp: Let_def split: Option.bind_splits)
    have below: "\<forall>x \<in> f_id ` set ?subs \<union> descendants ?kids (f_id ` set ?subs).
                   x \<notin> descendants ?kids {x}"
    proof (cases "?subs = []")
      case True
      then show ?thesis
        by (simp add: descendants_empty)
    next
      case False
      with deep have "walk listing ?subs = Some deeper"
        by simp
      then show ?thesis
        by (rule "1.IH")
    qed
    have beside: "\<forall>x \<in> f_id ` set rest \<union> descendants ?kids (f_id ` set rest).
                    x \<notin> descendants ?kids {x}"
      using rest by (rule "1.IH")
    have single: "descendants ?kids {f_id folder}
                    = f_id ` set ?subs \<union> descendants ?kids (f_id ` set ?subs)"
      by (rule descendants_single)
    have self: "f_id folder \<notin> descendants ?kids {f_id folder}"
    proof
      assume a: "f_id folder \<in> descendants ?kids {f_id folder}"
      then have "f_id folder \<in> f_id ` set ?subs \<union> descendants ?kids (f_id ` set ?subs)"
        unfolding single .
      with below have "f_id folder \<notin> descendants ?kids {f_id folder}"
        by blast
      with a show False by simp
    qed
    have "f_id ` set fs = {f_id folder} \<union> f_id ` set rest"
      using Cons by simp
    then have all: "f_id ` set fs \<union> descendants ?kids (f_id ` set fs)
                 = {f_id folder} \<union> (f_id ` set ?subs \<union> descendants ?kids (f_id ` set ?subs))
                   \<union> (f_id ` set rest \<union> descendants ?kids (f_id ` set rest))"
      by (simp only: descendants_Un single) blast
    show ?thesis
      unfolding all using self below beside by blast
  qed
qed

text \<open>
  C7. The walk has no defence against a cycle, and it takes a failed call for an empty
  folder. When every call for the drive and for the folders under it returns the folders
  that the provider holds there, and each of these folders has a lower rank than the
  folder it is under (so there is no cycle under the drive), \<^verbatim>\<open>getFoldersFromDrive\<close>
  returns, and its list has every folder under the drive exactly once. When, in what the
  calls return, some folder under the drive lies under itself, the walk does not return.
\<close>

theorem getFoldersFromDrive_returns_without_cycle:
  "((\<forall>p \<in> insert driveId (descendants children {driveId}). listing p = Inr (children p))
      \<and> (\<forall>p \<in> insert driveId (descendants children {driveId}).
            \<forall>c \<in> set (children p). rank (f_id c) < (rank p :: nat))
     \<longrightarrow> (\<exists>res. getFoldersFromDrive listing driveId = Some (Inr res)
              \<and> f_id ` set res = descendants children {driveId}
              \<and> distinct (map f_id res)))
   \<and> (x \<in> descendants (getDirectSubfolders listing) {driveId}
        \<and> x \<in> descendants (getDirectSubfolders listing) {x}
     \<longrightarrow> getFoldersFromDrive listing driveId = None)"
proof (intro conjI impI)
  assume a: "(\<forall>p \<in> insert driveId (descendants children {driveId}). listing p = Inr (children p))
      \<and> (\<forall>p \<in> insert driveId (descendants children {driveId}).
            \<forall>c \<in> set (children p). rank (f_id c) < (rank p :: nat))"
  let ?S = "descendants children {driveId}"
  let ?roots = "children driveId"
  have top: "listing driveId = Inr ?roots"
    using a by simp
  have calls: "\<forall>p \<in> ?S. listing p = Inr (children p)"
    and rank: "\<forall>p \<in> ?S. \<forall>c \<in> set (children p). rank (f_id c) < rank p"
    using a by simp_all
  have closed: "\<forall>p \<in> ?S. \<forall>c \<in> set (children p). f_id c \<in> ?S"
    by (auto intro: descendants.sub)
  have inS: "f_id ` set ?roots \<subseteq> ?S"
    by (auto intro: descendants.top)
  have low: "\<forall>f \<in> set ?roots. rank (f_id f) < rank driveId"
    using a by simp
  from walk_returns[OF calls closed rank inS low] obtain subs where subs:
    "getSubfoldersRecursively listing ?roots = Some subs"
    "f_id ` set subs = descendants children (f_id ` set ?roots)"
    by blast
  let ?res = "calculateFolderPaths (?roots @ subs) driveId"
  have "getFoldersFromDrive listing driveId = Some (Inr ?res)"
    by (simp add: getFoldersFromDrive_def top subs(1))
  moreover have "f_id ` set ?res = descendants children {driveId}"
    unfolding calculateFolderPaths_ids(3) descendants_single[of children driveId]
    using subs(2) by (simp add: image_Un)
  moreover have "distinct (map f_id ?res)"
    by (rule calculateFolderPaths_ids(2))
  ultimately show "\<exists>res. getFoldersFromDrive listing driveId = Some (Inr res)
              \<and> f_id ` set res = descendants children {driveId}
              \<and> distinct (map f_id res)"
    by blast
next
  let ?kids = "getDirectSubfolders listing"
  assume b: "x \<in> descendants ?kids {driveId} \<and> x \<in> descendants ?kids {x}"
  then have "x \<in> f_id ` set (?kids driveId) \<union> descendants ?kids (f_id ` set (?kids driveId))"
    by (simp only: descendants_single[symmetric])
  moreover have "?kids driveId \<noteq> []"
  proof
    assume "?kids driveId = []"
    then have "descendants ?kids {driveId} = {}"
      by (simp add: descendants_single descendants_empty)
    with b show False by simp
  qed
  then obtain roots where roots: "listing driveId = Inr roots" "?kids driveId = roots"
    by (cases "listing driveId") (simp_all add: getDirectSubfolders_def)
  ultimately have in_roots: "x \<in> f_id ` set roots \<union> descendants ?kids (f_id ` set roots)"
    by simp
  have "getSubfoldersRecursively listing roots = None"
  proof (cases "getSubfoldersRecursively listing roots")
    case None
    then show ?thesis .
  next
    case (Some r)
    from walk_meets_no_cycle[OF this] in_roots have "x \<notin> descendants ?kids {x}"
      by blast
    with b show ?thesis by simp
  qed
  then show "getFoldersFromDrive listing driveId = None"
    by (simp add: getFoldersFromDrive_def roots(1))
qed

theorem getFoldersFromDrive_returns_without_cycle_witness:
  "(\<exists>res. getFoldersFromDrive tree_listing ''D1'' = Some (Inr res)
          \<and> f_id ` set res = descendants (getDirectSubfolders tree_listing) {''D1''}
          \<and> distinct (map f_id res))
   \<and> descendants (getDirectSubfolders tree_listing) {''D1''} = {''A'', ''B''}
   \<and> map_option (map_sum id (map (\<lambda>f. (f_id f, f_full_path f)))) (getFoldersFromDrive tree_listing ''D1'')
       = Some (Inr [(''A'', Some ''/A''), (''B'', Some ''/A/B'')])
   \<and> ''X'' \<in> descendants (getDirectSubfolders cyclic_listing) {''D1''}
   \<and> ''X'' \<in> descendants (getDirectSubfolders cyclic_listing) {''X''}
   \<and> getFoldersFromDrive cyclic_listing ''D1'' = None"
proof -
  let ?tree = "getDirectSubfolders tree_listing"
  let ?cyc = "getDirectSubfolders cyclic_listing"
  have calls: "\<forall>p \<in> insert ''D1'' (descendants ?tree {''D1''}). tree_listing p = Inr (?tree p)"
    by (simp add: getDirectSubfolders_def tree_listing_def)
  have rank: "\<forall>p \<in> insert ''D1'' (descendants ?tree {''D1''}).
                \<forall>c \<in> set (?tree p). tree_rank (f_id c) < tree_rank p"
    by (auto simp: getDirectSubfolders_def tree_listing_def tree_rank_def plain_folder_def
          split: if_splits)
  have run: "map_option (map_sum id (map (\<lambda>f. (f_id f, f_full_path f))))
               (getFoldersFromDrive tree_listing ''D1'')
             = Some (Inr [(''A'', Some ''/A''), (''B'', Some ''/A/B'')])"
    by (simp add: getFoldersFromDrive_def tree_listing_def walk_Cons walk_Nil getDirectSubfolders_def
          plain_folder_def calculateFolderPaths_def folderMap0_def calculatePath.simps first_parent_def)
  have tree: "descendants ?tree {''D1''} = {''A'', ''B''}"
  proof -
    have d1: "?tree ''D1'' = [plain_folder ''A'' ''D1'']" and a: "?tree ''A'' = [plain_folder ''B'' ''A'']"
      and b: "?tree ''B'' = []"
      by (simp_all add: getDirectSubfolders_def tree_listing_def)
    have "descendants ?tree {''B''} = {}"
      by (simp add: descendants_single[of ?tree "''B''"] b descendants_empty)
    then have "descendants ?tree {''A''} = {''B''}"
      by (simp add: descendants_single[of ?tree "''A''"] a plain_folder_def)
    then show ?thesis
      by (simp add: descendants_single[of ?tree "''D1''"] d1 plain_folder_def insert_commute)
  qed
  have x1: "f_id (plain_folder ''X'' ''D1'') \<in> descendants ?cyc {''D1''}"
    by (rule descendants.top[of "''D1''"]) (simp_all add: getDirectSubfolders_def cyclic_listing_def)
  have y: "f_id (plain_folder ''Y'' ''X'') \<in> descendants ?cyc {''X''}"
    by (rule descendants.top[of "''X''"]) (simp_all add: getDirectSubfolders_def cyclic_listing_def)
  have "f_id (plain_folder ''X'' ''Y'') \<in> descendants ?cyc {''X''}"
    by (rule descendants.sub[of "''Y''"])
       (use y in \<open>simp_all add: getDirectSubfolders_def cyclic_listing_def plain_folder_def\<close>)
  then have x2: "''X'' \<in> descendants ?cyc {''X''}"
    by (simp add: plain_folder_def)
  from x1 have x1': "''X'' \<in> descendants ?cyc {''D1''}"
    by (simp add: plain_folder_def)
  from getFoldersFromDrive_returns_without_cycle
         [where listing = tree_listing and driveId = "''D1''" and children = ?tree and rank = tree_rank]
       calls rank
  have part1: "\<exists>res. getFoldersFromDrive tree_listing ''D1'' = Some (Inr res)
          \<and> f_id ` set res = descendants ?tree {''D1''} \<and> distinct (map f_id res)"
    by blast
  from getFoldersFromDrive_returns_without_cycle
         [where listing = cyclic_listing and driveId = "''D1''" and x = "''X''"]
       x1' x2
  have part2: "getFoldersFromDrive cyclic_listing ''D1'' = None"
    by blast
  show ?thesis
    using part1 tree run x1' x2 part2 by blast
qed

text \<open>
  On the listing in which X is under Y and Y under X the walk does not return; and when
  the call for A fails, the walk returns without A1, which the provider holds under A.
\<close>

theorem getFoldersFromDrive_cycle_never_returns:
  "getFoldersFromDrive cyclic_listing ''D1'' = None
   \<and> map_option (map_sum id (map f_id)) (getFoldersFromDrive flaky_listing ''D1'')
       = Some (Inr [''A'', ''B''])
   \<and> plain_folder ''A1'' ''A'' \<in> set (flaky_tree ''A'')
   \<and> plain_folder ''A'' ''D1'' \<in> set (flaky_tree ''D1'')"
proof -
  have "getFoldersFromDrive cyclic_listing ''D1'' = None"
    by (simp add: getFoldersFromDrive_def cyclic_listing_def walk_cycle_never_returns)
  moreover have "map_option (map_sum id (map f_id)) (getFoldersFromDrive flaky_listing ''D1'')
       = Some (Inr [''A'', ''B''])"
    by (simp add: getFoldersFromDrive_def flaky_listing_def flaky_tree_def walk_Cons walk_Nil
          getDirectSubfolders_def plain_folder_def calculateFolderPaths_def folderMap0_def
          calculatePath.simps first_parent_def)
  ultimately show ?thesis
    by (simp add: flaky_tree_def)
qed

subsection \<open>A run as a whole\<close>

text \<open>The fetch loop never throws: a drive whose data cannot be fetched gets empty lists and one error entry.\<close>

lemma fetch_loop_result:
  "fetch_loop p drives s =
     (map (\<lambda>drive. case fetch_drive p (drv_id drive) (drv_name drive) of
                      Inr (fs, ms) \<Rightarrow> drive\<lparr>drv_folders := Some fs, drv_managers := Some ms\<rparr>
                    | Inl e \<Rightarrow> drive\<lparr>drv_folders := Some [], drv_managers := Some []\<rparr>) drives,
      s\<lparr>fs_folders_count := fs_folders_count s
             + (\<Sum>drive \<leftarrow> drives. case fetch_drive p (drv_id drive) (drv_name drive) of
                                    Inr (fs, ms) \<Rightarrow> length fs | Inl e \<Rightarrow> 0),
        fs_managers_count := fs_managers_count s
             + (\<Sum>drive \<leftarrow> drives. case fetch_drive p (drv_id drive) (drv_name drive) of
                                    Inr (fs, ms) \<Rightarrow> length ms | Inl e \<Rightarrow> 0),
        fs_errors := fs_errors s
             @ concat (map (\<lambda>drive. case fetch_drive p (drv_id drive) (drv_name drive) of
                                       Inr _ \<Rightarrow> []
                                     | Inl e \<Rightarrow> [''Error procesando unidad '' @ drv_name drive
                                                   @ '': '' @ message e]) drives)\<rparr>)"
proof (induction drives arbitrary: s)
  case Nil
  then show ?case by simp
next
  case (Cons drive rest)
  show ?case
  proof (cases "fetch_drive p (drv_id drive) (drv_name drive)")
    case (Inl e)
    then show ?thesis
      by (simp add: Cons.IH)
  next
    case (Inr r)
    obtain fs ms where r: "r = (fs, ms)" by (cases r)
    with Inr show ?thesis
      by (simp add: Cons.IH)
  qed
qed

lemma initialized_apply_write [simp]: "initialized (apply_write w st) = initialized st"
  by (cases w) simp_all

lemma initialized_apply_writes [simp]: "initialized (apply_writes ws st) = initialized st"
  by (induction ws arbitrary: st) simp_all

lemma initialized_commit_writes [simp]: "initialized (commit_writes ws st) = initialized st"
  by (simp add: commit_writes_def)

lemma initialized_syncSharedDrives [simp]:
  "initialized (snd (syncSharedDrives now drives st)) = initialized st"
proof (cases "initialized st")
  case True
  then show ?thesis
    by (simp add: syncSharedDrives_result Let_def)
next
  case False
  then show ?thesis
    by (simp add: syncSharedDrives_def)
qed

lemma initialized_syncFoldersForDrive [simp]:
  "initialized (snd (syncFoldersForDrive now driveId fs st)) = initialized st"
proof (cases "initialized st")
  case True
  then show ?thesis
    by (simp add: syncFoldersForDrive_result Let_def)
next
  case False
  then show ?thesis
    by (simp add: syncFoldersForDrive_def)
qed

lemma initialized_syncManagersForDrive [simp]:
  "initialized (snd (syncManagersForDrive gen now driveId driveName ms st)) = initialized st"
proof (cases "initialized st")
  case True
  show ?thesis
  proof (cases "\<forall>m \<in> set ms. md_undefined (managerData now driveId driveName m) = []")
    case valid: True
    show ?thesis
      using True by (simp add: syncManagersForDrive_unfold[OF True valid])
  next
    case False
    then have "\<exists>m \<in> set ms. md_undefined (managerData now driveId driveName m) \<noteq> []"
      by simp
    from syncManagersForDrive_undefined[OF True this, of gen] show ?thesis
      using True by auto
  qed
next
  case False
  then show ?thesis
    by (simp add: syncManagersForDrive_def)
qed

lemma initialized_telemetry [simp]:
  "initialized (updateSyncProgress syncId progress st) = initialized st"
  "initialized (updateSyncStatus status sid now st) = initialized st"
  "initialized (completeSyncRecord syncId stats status now st) = initialized st"
  "initialized (snd (recordSyncStart syncId now st)) = initialized st"
  by (simp_all add: updateSyncProgress_def updateSyncStatus_def completeSyncRecord_def
        recordSyncStart_def split: option.splits)

text \<open>Which writes touch which collection.\<close>

lemma folder_docs_apply_writes:
  assumes "\<And>i d. Set_folder i d \<notin> set ws"
  shows "folder_docs (apply_writes ws st) = folder_docs st"
  using assms
proof (induction ws arbitrary: st)
  case Nil
  then show ?case by simp
next
  case (Cons w ws)
  have "folder_docs (apply_write w st) = folder_docs st"
    using Cons.prems[of _ _] by (cases w) auto
  moreover have "\<And>i d. Set_folder i d \<notin> set ws"
    using Cons.prems by auto
  ultimately show ?case
    using Cons.IH by simp
qed

lemma folder_docs_syncSharedDrives [simp]:
  "folder_docs (snd (syncSharedDrives now drives st)) = folder_docs st"
proof (cases "initialized st")
  case True
  have no: "Set_folder i d \<notin> set (drive_writes now (shared_drives st) drives)" for i d
    by (auto simp: drive_writes_def)
  then have no': "Set_folder i d \<notin> set (take k (drive_writes now (shared_drives st) drives))" for i d k
    by (auto dest: in_set_takeD)
  show ?thesis
    using no no'
    by (simp add: syncSharedDrives_result[OF True] Let_def commit_writes_def folder_docs_apply_writes)
next
  case False
  then show ?thesis
    by (simp add: syncSharedDrives_def)
qed

lemma folder_docs_syncManagersForDrive [simp]:
  "folder_docs (snd (syncManagersForDrive gen now driveId driveName ms st)) = folder_docs st"
proof (cases "initialized st")
  case True
  show ?thesis
  proof (cases "\<forall>m \<in> set ms. md_undefined (managerData now driveId driveName m) = []")
    case valid: True
    have "folder_docs (apply_writes
          (map (\<lambda>(i, _). Delete_manager i) (existingManagers driveId st)
           @ map (\<lambda>(r, manager). Set_manager r (managerData now driveId driveName manager))
               (zip (map gen [next_auto st ..< next_auto st + length ms]) ms))
          (st\<lparr>next_auto := next_auto st + length ms\<rparr>)) = folder_docs (st\<lparr>next_auto := next_auto st + length ms\<rparr>)"
      by (rule folder_docs_apply_writes) auto
    then show ?thesis
      by (simp add: syncManagersForDrive_unfold[OF True valid] commit_writes_def)
  next
    case False
    then have "\<exists>m \<in> set ms. md_undefined (managerData now driveId driveName m) \<noteq> []"
      by simp
    from syncManagersForDrive_undefined[OF True this, of gen] show ?thesis
      by auto
  qed
next
  case False
  then show ?thesis
    by (simp add: syncManagersForDrive_def)
qed

lemma folder_docs_telemetry [simp]:
  "folder_docs (updateSyncProgress syncId progress st) = folder_docs st"
  "folder_docs (updateSyncStatus status sid now st) = folder_docs st"
  "folder_docs (completeSyncRecord syncId stats status now st) = folder_docs st"
  "folder_docs (snd (recordSyncStart syncId now st)) = folder_docs st"
  by (simp_all add: updateSyncProgress_def updateSyncStatus_def completeSyncRecord_def
        recordSyncStart_def split: option.splits)

lemma keys_after_folder_sets:
  "fst ` set (folder_docs (apply_writes (map (\<lambda>f. Set_folder (f_id f) (g f)) fs) st))
     = fst ` set (folder_docs st) \<union> f_id ` set fs"
proof (induction fs arbitrary: st)
  case Nil
  then show ?case by simp
next
  case (Cons f fs)
  show ?case
    by (simp add: Cons.IH dom_update)
qed

text \<open>
  The folders of a drive in the mirror after \<^verbatim>\<open>syncFoldersForDrive\<close>, for data that
  have all their values: at most the first 500 are new.
\<close>

lemma syncFoldersForDrive_keys:
  assumes "initialized st" and "frontend_folders_dated st"
    and "\<forall>f \<in> set fs. f_parents f \<noteq> Some []"
  shows "fst ` set (folder_docs (snd (syncFoldersForDrive now driveId fs st)))
           = fst ` set (folder_docs st) \<union> f_id ` set (take batchSize fs)"
    and "fst (syncFoldersForDrive now driveId fs st)
           = (if length fs \<le> batchSize then Inr (length fs) else Inl Batch_committed)"
proof -
  let ?g = "\<lambda>folder. folderData now driveId (map_of (folder_docs st) (f_id folder)) folder"
  have ws: "folder_writes now driveId st fs = map (\<lambda>f. Set_folder (f_id f) (?g f)) fs"
    by (simp add: folder_writes_def)
  have tk: "take batchSize (folder_writes now driveId st fs)
             = map (\<lambda>f. Set_folder (f_id f) (?g f)) (take batchSize fs)"
    by (simp add: ws take_map)
  consider "length fs = 0" | "length fs \<noteq> 0" "length fs \<le> batchSize" | "length fs > batchSize"
    by linarith
  then show "fst ` set (folder_docs (snd (syncFoldersForDrive now driveId fs st)))
           = fst ` set (folder_docs st) \<union> f_id ` set (take batchSize fs)"
  proof cases
    case 1
    then show ?thesis
      unfolding syncFoldersForDrive_result_valid[OF assms] Let_def by simp
  next
    case 2
    then show ?thesis
      by (simp add: syncFoldersForDrive_result_valid[OF assms] Let_def commit_writes_def ws
            keys_after_folder_sets)
  next
    case 3
    then have "fs \<noteq> []" by auto
    with 3 show ?thesis
      by (simp add: syncFoldersForDrive_result_valid[OF assms] Let_def commit_writes_def tk
            keys_after_folder_sets)
  qed
  show "fst (syncFoldersForDrive now driveId fs st)
           = (if length fs \<le> batchSize then Inr (length fs) else Inl Batch_committed)"
    by (auto simp: syncFoldersForDrive_result_valid[OF assms] Let_def)
qed
lemma mirror_errors_Cons:
  "mirror_errors (drive # rest) =
     (if length (case drv_folders drive of None \<Rightarrow> [] | Some fs \<Rightarrow> fs) \<le> batchSize then []
      else [''Error sincronizando unidad '' @ drv_name drive @ '' a Firestore: ''
              @ message Batch_committed]) @ mirror_errors rest"
  by (simp add: mirror_errors_def)

lemma mirrored_folder_ids_Cons:
  "mirrored_folder_ids (drive # rest) =
     f_id ` set (take batchSize (case drv_folders drive of None \<Rightarrow> [] | Some fs \<Rightarrow> fs))
     \<union> mirrored_folder_ids rest"
  by (simp add: mirrored_folder_ids_def)

lemma sync_drive_loop_result:
  assumes "initialized st" and "frontend_folders_dated st"
    and "\<forall>drive \<in> set drives. complete_listing drive"
  shows "fst (sync_drive_loop gen now syncId n i drives (errs, st)) = errs @ mirror_errors drives
       \<and> initialized (snd (sync_drive_loop gen now syncId n i drives (errs, st)))
       \<and> fst ` set (folder_docs (snd (sync_drive_loop gen now syncId n i drives (errs, st))))
           = fst ` set (folder_docs st) \<union> mirrored_folder_ids drives"
  using assms
proof (induction drives arbitrary: errs st i)
  case Nil
  then show ?case
    by (simp add: mirror_errors_def mirrored_folder_ids_def)
next
  case (Cons drive rest)
  define fs where "fs = (case drv_folders drive of None \<Rightarrow> [] | Some fs \<Rightarrow> fs)"
  define ms where "ms = (case drv_managers drive of None \<Rightarrow> [] | Some ms \<Rightarrow> ms)"
  define F where "F = syncFoldersForDrive now (drv_id drive) fs st"
  define M where "M = syncManagersForDrive gen now (drv_id drive) (drv_name drive) ms (snd F)"
  define msg where "msg = ''Error sincronizando unidad '' @ drv_name drive @ '' a Firestore: ''
                            @ message Batch_committed"
  define st3 where "st3 = updateSyncProgress syncId
                  (\<lambda>d. d\<lparr>rd_current_drive := Some (i + 1, n),
                          rd_current_drive_name := Some (drv_name drive)\<rparr>) (snd M)"
  have init1: "initialized (snd F)" and init2: "initialized (snd M)" and init3: "initialized st3"
    using Cons.prems(1) by (simp_all add: F_def M_def st3_def)
  have listing: "complete_listing drive" and rest: "\<forall>drive \<in> set rest. complete_listing drive"
    using Cons.prems(3) by simp_all
  have parents: "\<forall>f \<in> set fs. f_parents f \<noteq> Some []"
    using listing by (simp add: complete_listing_def fs_def)
  have vals: "\<forall>m \<in> set ms. md_undefined (managerData now (drv_id drive) (drv_name drive) m) = []"
    using listing by (simp add: complete_listing_def ms_def managerData_undefined)
  have rf: "fst F = (if length fs \<le> batchSize then Inr (length fs) else Inl Batch_committed)"
    unfolding F_def using Cons.prems(1,2) parents by (rule syncFoldersForDrive_keys(2))
  have rm: "fst M = Inr (length ms)"
    unfolding M_def by (simp add: syncManagersForDrive_unfold[OF init1 vals])
  have keysF: "fst ` set (folder_docs (snd F))
                 = fst ` set (folder_docs st) \<union> f_id ` set (take batchSize fs)"
    unfolding F_def using Cons.prems(1,2) parents by (rule syncFoldersForDrive_keys(1))
  have keys2: "folder_docs (snd M) = folder_docs (snd F)" "folder_docs st3 = folder_docs (snd F)"
    by (simp_all add: M_def st3_def)
  have "frontend_folders_dated (snd F)"
    unfolding F_def using Cons.prems(2) by (rule syncFoldersForDrive_dated)
  then have dated2: "frontend_folders_dated (snd M)" and dated3: "frontend_folders_dated st3"
    using keys2 by (simp_all add: frontend_folders_dated_def)
  have unfold: "sync_drive_loop gen now syncId n i (drive # rest) (errs, st) =
      (case (fst F, fst M) of
         (Inr _, Inr _) \<Rightarrow> sync_drive_loop gen now syncId n (i + 1) rest (errs, st3)
       | (Inl error, _) \<Rightarrow> sync_drive_loop gen now syncId n (i + 1) rest
            (errs @ [''Error sincronizando unidad '' @ drv_name drive @ '' a Firestore: ''
                       @ message error], snd M)
       | (Inr _, Inl error) \<Rightarrow> sync_drive_loop gen now syncId n (i + 1) rest
            (errs @ [''Error sincronizando unidad '' @ drv_name drive @ '' a Firestore: ''
                       @ message error], snd M))"
    unfolding F_def M_def st3_def fs_def ms_def
    by (simp add: case_prod_unfold)
  have me: "mirror_errors (drive # rest)
              = (if length fs \<le> batchSize then [] else [msg]) @ mirror_errors rest"
    unfolding fs_def msg_def by (rule mirror_errors_Cons)
  have mi: "mirrored_folder_ids (drive # rest)
              = f_id ` set (take batchSize fs) \<union> mirrored_folder_ids rest"
    unfolding fs_def by (rule mirrored_folder_ids_Cons)
  show ?case
  proof (cases "length fs \<le> batchSize")
    case True
    have step: "sync_drive_loop gen now syncId n i (drive # rest) (errs, st)
                  = sync_drive_loop gen now syncId n (i + 1) rest (errs, st3)"
      unfolding unfold rf rm using True by simp
    note ih = Cons.IH[OF init3 dated3 rest, of "i + 1" errs]
    have "fst ` set (folder_docs st3) \<union> mirrored_folder_ids rest
            = fst ` set (folder_docs st) \<union> mirrored_folder_ids (drive # rest)"
      unfolding keys2 keysF mi by (simp only: Un_assoc)
    with ih True show ?thesis
      unfolding step me by simp
  next
    case False
    have step: "sync_drive_loop gen now syncId n i (drive # rest) (errs, st)
                  = sync_drive_loop gen now syncId n (i + 1) rest (errs @ [msg], snd M)"
      unfolding unfold rf rm msg_def using False by simp
    note ih = Cons.IH[OF init2 dated2 rest, of "i + 1" "errs @ [msg]"]
    have "fst ` set (folder_docs (snd M)) \<union> mirrored_folder_ids rest
            = fst ` set (folder_docs st) \<union> mirrored_folder_ids (drive # rest)"
      unfolding keys2 keysF mi by (simp only: Un_assoc)
    with ih False show ?thesis
      unfolding step me by simp
  qed
qed
lemma shared_drives_telemetry [simp]:
  "shared_drives (updateSyncProgress syncId progress st) = shared_drives st"
  "shared_drives (updateSyncStatus status sid now st) = shared_drives st"
  "shared_drives (completeSyncRecord syncId stats status now st) = shared_drives st"
  "shared_drives (snd (recordSyncStart syncId now st)) = shared_drives st"
  by (simp_all add: updateSyncProgress_def updateSyncStatus_def completeSyncRecord_def
        recordSyncStart_def split: option.splits)

text \<open>
  A full run on a connected provider whose drive writes fit one batch, with a well-formed
  mirror and listings that have all their values: fetch failures and mirror failures of
  single drives become error entries, the run completes, and its status says whether
  there were errors.
\<close>

lemma performSync_completes:
  assumes idle: "\<not> isRunning svc"
    and init: "initialized st"
    and pinit: "drive_initialized p"
    and conn: "r_testConnection p = Inr user"
    and list: "r_getAllSharedDrives p = Inr drives"
    and fits: "length (drivesToDelete (shared_drives st) drives) + length drives \<le> batchSize"
    and fetched: "fetch_loop p drives \<lparr>fs_drives_count = length drives, fs_folders_count = 0,
                                       fs_managers_count = 0, fs_errors = []\<rparr> = (ds, fstats)"
    and dated: "frontend_drives_dated st" "frontend_folders_dated st"
    and listings: "\<forall>drive \<in> set ds. complete_listing drive"
  shows "\<exists>r svc' st'. performSync gen p uuid now fin (svc, st) = (Inr r, svc', st')
           \<and> rr_success r \<and> rr_sync_id r = Some uuid
           \<and> errors (rr_stats r) = fs_errors fstats @ mirror_errors ds
           \<and> rr_status r = (if fs_errors fstats @ mirror_errors ds = [] then ''completed''
                             else ''completed_with_errors'')
           \<and> drives_count (rr_stats r) = length drives
           \<and> \<not> isRunning svc' \<and> currentSyncId svc' = None
           \<and> fst ` set (folder_docs st') = fst ` set (folder_docs st) \<union> mirrored_folder_ids ds"
proof -
  define svc0 where "svc0 = start_run uuid now svc"
  define st1 where "st1 = snd (recordSyncStart uuid now st)"
  define st2 where "st2 = updateSyncStatus ''running'' (Some uuid) now st1"
  define svc1 where "svc1 = svc0\<lparr>syncStats := (syncStats svc0)
                                     \<lparr>drives_count := fs_drives_count fstats,
                                      folders_count := fs_folders_count fstats,
                                      managers_count := fs_managers_count fstats,
                                      errors := fs_errors fstats\<rparr>\<rparr>"
  define st3 where "st3 = updateSyncProgress uuid
                            (\<lambda>d. d\<lparr>rd_drives_count := fs_drives_count fstats,
                                    rd_status := ''syncing_to_firestore''\<rparr>) st2"
  define st4 where "st4 = snd (syncSharedDrives now ds st3)"
  define L where "L = sync_drive_loop gen now uuid (length ds) 0 ds (errors (syncStats svc1), st4)"
  define svc2 where "svc2 = svc1\<lparr>syncStats := (syncStats svc1)\<lparr>errors := fst L\<rparr>\<rparr>"
  have rec: "recordSyncStart uuid now st = (None, st1)"
    using init by (simp add: st1_def recordSyncStart_def)
  have full: "performFullSync p = Inr (ds, fstats)"
    using pinit list fetched by (simp add: performFullSync_def)
  have i3: "initialized st3" and sd3: "shared_drives st3 = shared_drives st"
    and fd3: "folder_docs st3 = folder_docs st"
    using init by (simp_all add: st3_def st2_def st1_def)
  have lds: "length ds = length drives" and ids: "map drv_id ds = map drv_id drives"
    using fetched unfolding fetch_loop_result
    by (auto simp: comp_def split: sum.splits prod.splits)
  have dels: "drivesToDelete (shared_drives st3) ds = drivesToDelete (shared_drives st) drives"
    unfolding sd3 drivesToDelete_def ids ..
  have fits3: "length (drivesToDelete (shared_drives st3) ds) + length ds \<le> batchSize"
    using fits by (simp add: dels lds)
  have "frontend_drives_dated st3"
    using dated(1) sd3 by (simp add: frontend_drives_dated_def)
  then have valid3: "\<forall>d \<in> set ds. dd_undefined (driveData now (shared_drives st3) d) = []"
    by (simp add: driveData_valid)
  obtain res where ssd: "syncSharedDrives now ds st3 = (Inr res, st4)"
    using syncSharedDrives_within_one_batch(1)[OF i3 fits3 valid3]
    by (metis st4_def prod.collapse)
  have i4: "initialized st4" and fd4: "folder_docs st4 = folder_docs st"
    using i3 fd3 by (simp_all add: st4_def)
  have dated4: "frontend_folders_dated st4"
    using dated(2) fd4 by (simp add: frontend_folders_dated_def)
  note loop = sync_drive_loop_result[OF i4 dated4 listings,
                of gen now uuid "length ds" 0 "errors (syncStats svc1)"]
  have errs1: "errors (syncStats svc1) = fs_errors fstats"
    by (simp add: svc1_def)
  have Lfst: "fst L = fs_errors fstats @ mirror_errors ds"
    using loop by (simp add: L_def errs1)
  have Lkeys: "fst ` set (folder_docs (snd L)) = fst ` set (folder_docs st) \<union> mirrored_folder_ids ds"
    using loop by (simp add: L_def fd4)
  have to_fs: "syncToFirestore gen now uuid ds (svc1, st3) = (None, svc2, snd L)"
    by (simp add: syncToFirestore_def ssd L_def svc2_def case_prod_unfold)
  have body: "full_sync_body gen p uuid now (svc0, st) = (None, svc2, snd L)"
    by (simp add: full_sync_body_def rec conn full Let_def to_fs
          st2_def[symmetric] svc1_def[symmetric] st3_def[symmetric])
  have run: "performSync gen p uuid now fin (svc, st) =
      (case complete_run uuid now fin (svc2, snd L) of (r, svc', st') \<Rightarrow> (Inr r, end_run svc', st'))"
    using idle by (simp add: performSync_def svc0_def[symmetric] body)
  have e2: "errors (syncStats svc2) = fs_errors fstats @ mirror_errors ds"
    and d2: "drives_count (syncStats svc2) = length drives"
    using fetched unfolding fetch_loop_result
    by (auto simp: svc2_def svc1_def Lfst)
  show ?thesis
    unfolding run
    by (simp add: complete_run_def Let_def end_run_def e2 d2 Lkeys)
qed
text \<open>
  C9. When fetching the folders of one drive fails, the run should go on, with one error
  entry for that drive, bring the data of the other drives to the mirror and end as
  \<^verbatim>\<open>completed_with_errors\<close>. With the drives X (its folder fetch fails) and Y (501
  folders), the run ends as \<^verbatim>\<open>completed_with_errors\<close> with the entry for X, but
  the folder sync of Y throws after its batch of 500: the run has a second entry, for Y,
  and the 501st folder of Y is not in the mirror.
\<close>

theorem performSync_loses_folders_of_other_drive:
  "map_sum id (\<lambda>r. (rr_status r, errors (rr_stats r)))
     (fst (performSync auto_id two_drive_provider ''run-1'' 10 20 (idle_service, empty_store)))
     = Inr (''completed_with_errors'',
            [''Error procesando unidad X: quota exceeded'',
             ''Error sincronizando unidad Y a Firestore: Cannot modify a WriteBatch that has been committed.''])
   \<and> f_id (many_folders ''Y'' 501 ! 499)
       \<in> fst ` set (folder_docs (snd (snd (performSync auto_id two_drive_provider ''run-1'' 10 20
                                              (idle_service, empty_store)))))
   \<and> f_id (many_folders ''Y'' 501 ! 500)
       \<notin> fst ` set (folder_docs (snd (snd (performSync auto_id two_drive_provider ''run-1'' 10 20
                                              (idle_service, empty_store)))))"
proof -
  let ?X = "(plain_drive ''X'')\<lparr>drv_folders := Some [], drv_managers := Some []\<rparr>"
  let ?Y = "(plain_drive ''Y'')\<lparr>drv_folders := Some (many_folders ''Y'' 501),
                                 drv_managers := Some [alice]\<rparr>"
  let ?fstats = "\<lparr>fs_drives_count = 2, fs_folders_count = length (many_folders ''Y'' 501),
                   fs_managers_count = 1,
                   fs_errors = [''Error procesando unidad X: quota exceeded'']\<rparr>"
  have fetched: "fetch_loop two_drive_provider [plain_drive ''X'', plain_drive ''Y'']
                   \<lparr>fs_drives_count = length [plain_drive ''X'', plain_drive ''Y''],
                    fs_folders_count = 0, fs_managers_count = 0, fs_errors = []\<rparr>
                 = ([?X, ?Y], ?fstats)"
    by (simp add: fetch_drive_def two_drive_provider_def plain_drive_def)
  have idle: "\<not> isRunning idle_service"
    by (simp add: idle_service_def)
  have init: "initialized empty_store"
    by (simp add: empty_store_def)
  have fits: "length (drivesToDelete (shared_drives empty_store) [plain_drive ''X'', plain_drive ''Y''])
                + length [plain_drive ''X'', plain_drive ''Y''] \<le> batchSize"
    by (simp add: drivesToDelete_def empty_store_def batchSize_def)
  have l501: "length (many_folders ''Y'' 501) = 501"
    by (simp add: many_folders_def)
  have me: "mirror_errors [?X, ?Y]
              = [''Error sincronizando unidad Y a Firestore: Cannot modify a WriteBatch that has been committed.'']"
    by (simp add: mirror_errors_def l501 batchSize_def plain_drive_def)
  have mi: "mirrored_folder_ids [?X, ?Y] = f_id ` set (many_folders ''Y'' 500)"
    by (simp add: mirrored_folder_ids_def batchSize_def many_folders_def take_map)
  have dated: "frontend_drives_dated empty_store" "frontend_folders_dated empty_store"
    by (simp_all add: frontend_drives_dated_def frontend_folders_dated_def empty_store_def)
  have listings: "\<forall>drive \<in> set [?X, ?Y]. complete_listing drive"
    by (auto simp: complete_listing_def many_folders_def plain_folder_def alice_def js_or_def)
  from performSync_completes[OF idle init _ _ _ fits fetched dated listings,
         of "''admin@example.com''" auto_id "''run-1''" 10 20]
  obtain r svc' st' where run:
    "performSync auto_id two_drive_provider ''run-1'' 10 20 (idle_service, empty_store) = (Inr r, svc', st')"
    "errors (rr_stats r) = fs_errors ?fstats @ mirror_errors [?X, ?Y]"
    "rr_status r = (if fs_errors ?fstats @ mirror_errors [?X, ?Y] = [] then ''completed''
                    else ''completed_with_errors'')"
    "fst ` set (folder_docs st') = fst ` set (folder_docs empty_store) \<union> mirrored_folder_ids [?X, ?Y]"
    by (auto simp: two_drive_provider_def)
  have keys: "fst ` set (folder_docs st') = f_id ` set (many_folders ''Y'' 500)"
    unfolding run(4) mi by (simp add: empty_store_def)
  have inside: "f_id (many_folders ''Y'' 501 ! 499) \<in> f_id ` set (many_folders ''Y'' 500)"
  proof -
    have "many_folders ''Y'' 501 ! 499 = many_folders ''Y'' 500 ! 499"
      by (simp add: many_folders_def)
    moreover have "many_folders ''Y'' 500 ! 499 \<in> set (many_folders ''Y'' 500)"
      by (rule nth_mem) (simp add: many_folders_def)
    ultimately show ?thesis by simp
  qed
  have l: "length (f_id (many_folders ''Y'' 501 ! 500)) = 501"
    by (simp add: many_folders_def plain_folder_def)
  have b: "\<forall>i \<in> f_id ` set (many_folders ''Y'' 500). length i \<le> 500"
    by (auto simp: many_folders_def plain_folder_def)
  have outside: "f_id (many_folders ''Y'' 501 ! 500) \<notin> f_id ` set (many_folders ''Y'' 500)"
    using l b by force
  show ?thesis
    unfolding run(1) using run(2,3) inside outside
    by (simp add: keys me)
qed

subsection \<open>Running the sync twice\<close>


lemma merge_field_None [simp]: "merge_field None b = b" "merge_field a None = a"
  by (simp_all add: merge_field_def split: option.splits)

lemma merge_field_same [simp]: "merge_field a a = a"
  by (simp add: merge_field_def split: option.splits)






lemma merge_map_empty [simp]: "merge_map Map.empty c = c"
  by (simp add: merge_map_def)

























end
